theory Spec2Isabelle
  imports Main
begin

section \<open>Limits and memory cells\<close>

text \<open>
  The three limits of \<^verbatim>\<open>My_Shell.c\<close> (lines 22-24). \<open>MAX_ARGS\<close> is the size of every
  argument array \<^verbatim>\<open>char *args[MAX_ARGS]\<close>.
\<close>

definition MAX_INPUT :: nat where
  "MAX_INPUT = 1024"

definition MAX_ARGS :: nat where
  "MAX_ARGS = 128"

definition MAX_HISTORY :: nat where
  "MAX_HISTORY = 1000"

text \<open>
  What C leaves undefined is a value of the model: an index outside an array, a read of a
  slot that was never written, a write past the end of a character buffer, a read of the
  characters behind the null pointer.
\<close>

datatype fault = OutOfBounds | UninitRead | BufferOverflow | NullPointer

text \<open>
  One slot of a \<^verbatim>\<open>char *\<close> array: never written, the null pointer, or a pointer to a
  string. A local array starts as \<open>fresh_array n\<close>.
\<close>

datatype cell = Uninit | Null | Ptr string

definition fresh_array :: "nat \<Rightarrow> cell list" where
  "fresh_array n = replicate n Uninit"

definition cell_of :: "string option \<Rightarrow> cell" where
  "cell_of p = (case p of None \<Rightarrow> Null | Some s \<Rightarrow> Ptr s)"

definition load :: "cell list \<Rightarrow> nat \<Rightarrow> fault + string option" where
  "load a i =
     (if i < length a
      then (case a ! i of Uninit \<Rightarrow> Inl UninitRead | Null \<Rightarrow> Inr None | Ptr s \<Rightarrow> Inr (Some s))
      else Inl OutOfBounds)"

definition store :: "cell list \<Rightarrow> nat \<Rightarrow> string option \<Rightarrow> fault + cell list" where
  "store a i p = (if i < length a then Inr (a[i := cell_of p]) else Inl OutOfBounds)"

section \<open>strtok\<close>

text \<open>
  \<^verbatim>\<open>strtok(s, delim)\<close> keeps a pointer between calls; the model passes it as \<open>saved\<close>
  and returns the new one. A call with a string starts there, a call with \<^verbatim>\<open>NULL\<close>
  goes on from \<open>saved\<close>. It skips the delimiters in front, returns \<^verbatim>\<open>NULL\<close> at the end
  of the string, and otherwise returns the characters up to the next delimiter, which it
  overwrites with the terminator; the saved pointer is then one past it.
\<close>

definition strtok_from :: "string \<Rightarrow> string \<Rightarrow> string option \<times> string" where
  "strtok_from delim s =
     (let s1 = dropWhile (\<lambda>c. c \<in> set delim) s
      in if s1 = [] then (None, [])
         else (Some (takeWhile (\<lambda>c. c \<notin> set delim) s1),
               drop 1 (dropWhile (\<lambda>c. c \<notin> set delim) s1)))"

definition strtok :: "string option \<Rightarrow> string \<Rightarrow> string \<Rightarrow> string option \<times> string" where
  "strtok s delim saved = strtok_from delim (case s of None \<Rightarrow> saved | Some t \<Rightarrow> t)"

section \<open>parse_args\<close>

text \<open>
  \<^verbatim>\<open>
  void parse_args(char *line, char **args) {
      int i = 0;
      args[i] = strtok(line, " ");
      while (args[i] != NULL && i < MAX_ARGS-1)
          args[++i] = strtok(NULL, " ");
  }
  \<close>
  The loop is \<open>parse_args_loop\<close>; every array access goes through \<open>load\<close> and
  \<open>store\<close>, so an access outside the array is the result \<open>Inl OutOfBounds\<close>.
\<close>

function parse_args_loop :: "nat \<Rightarrow> cell list \<Rightarrow> string \<Rightarrow> fault + (cell list \<times> string)" where
  "parse_args_loop i args saved =
     (case load args i of
        Inl f \<Rightarrow> Inl f
      | Inr a \<Rightarrow>
          if a \<noteq> None \<and> i < MAX_ARGS - 1
          then (case strtok None '' '' saved of
                  (t, saved') \<Rightarrow>
                    (case store args (Suc i) t of
                       Inl f \<Rightarrow> Inl f
                     | Inr args' \<Rightarrow> parse_args_loop (Suc i) args' saved'))
          else Inr (args, saved))"
  by pat_completeness auto
termination
  by (relation "measure (\<lambda>(i, args, saved). MAX_ARGS - 1 - i)") auto

definition parse_args :: "string option \<Rightarrow> cell list \<Rightarrow> string \<Rightarrow> fault + (cell list \<times> string)" where
  "parse_args line args saved =
     (case strtok line '' '' saved of
        (t, saved') \<Rightarrow>
          (case store args 0 t of
             Inl f \<Rightarrow> Inl f
           | Inr args' \<Rightarrow> parse_args_loop 0 args' saved'))"

text \<open>
  The tokens of a line, written without \<open>strtok\<close>: the line is cut at every delimiter
  character, and the empty pieces are left out.
\<close>

fun pieces :: "char \<Rightarrow> string \<Rightarrow> string list" where
  "pieces d [] = [[]]"
| "pieces d (c # cs) =
     (if c = d then [] # pieces d cs
      else (case pieces d cs of [] \<Rightarrow> [[c]] | f # fs \<Rightarrow> (c # f) # fs))"

definition tokens :: "char \<Rightarrow> string \<Rightarrow> string list" where
  "tokens d s = filter (\<lambda>w. w \<noteq> []) (pieces d s)"

section \<open>File descriptors\<close>

text \<open>
  The flags the source passes to \<^verbatim>\<open>open\<close>, and the permission bits \<^verbatim>\<open>0644\<close> (octal).
\<close>

datatype oflag = O_RDONLY | O_WRONLY | O_CREAT | O_TRUNC | O_APPEND

definition mode_0644 :: nat where
  "mode_0644 = 6 * 64 + 4 * 8 + 4"

text \<open>
  What a descriptor refers to: something the shell inherited, one end of the pipe with a
  given number, or a file opened by name with the given flags. A descriptor table is
  indexed by descriptor number; \<open>None\<close> is a free slot.
\<close>

datatype ofile = Inherited nat | PipeRead nat | PipeWrite nat | FileOpen string "oflag list"

type_synonym fdtable = "ofile option list"

definition lowest_free :: "fdtable \<Rightarrow> nat" where
  "lowest_free t = length (takeWhile (\<lambda>x. x \<noteq> None) t)"

definition fd_is_open :: "fdtable \<Rightarrow> int \<Rightarrow> bool" where
  "fd_is_open t fd = (0 \<le> fd \<and> nat fd < length t \<and> t ! nat fd \<noteq> None)"

definition fd_set :: "fdtable \<Rightarrow> nat \<Rightarrow> ofile option \<Rightarrow> fdtable" where
  "fd_set t n v = (if n < length t then t[n := v] else t @ replicate (n - length t) None @ [v])"

definition open_fds :: "fdtable \<Rightarrow> nat list" where
  "open_fds t = filter (\<lambda>n. t ! n \<noteq> None) [0..<length t]"

text \<open>
  \<^verbatim>\<open>dup2(oldfd, newfd)\<close> fails and changes nothing when \<open>oldfd\<close> is not open (the source
  calls it with \<open>-1\<close> after a failed \<^verbatim>\<open>open\<close>); it does nothing when both are the same;
  otherwise \<open>newfd\<close> refers to what \<open>oldfd\<close> refers to. \<^verbatim>\<open>close(fd)\<close> fails and changes
  nothing when \<open>fd\<close> is not open.
\<close>

definition fd_dup2 :: "fdtable \<Rightarrow> int \<Rightarrow> nat \<Rightarrow> fdtable" where
  "fd_dup2 t oldfd newfd =
     (if fd_is_open t oldfd
      then (if nat oldfd = newfd then t else fd_set t newfd (t ! nat oldfd))
      else t)"

definition fd_close :: "fdtable \<Rightarrow> int \<Rightarrow> fdtable" where
  "fd_close t fd = (if fd_is_open t fd then t[nat fd := None] else t)"

section \<open>The operating system and the calls of a child\<close>

text \<open>
  The answers of the operating system that the source depends on: whether a file can be
  opened with the given flags, whether a directory can be entered, whether a program can
  be executed.
\<close>

record os =
  can_open :: "string \<Rightarrow> oflag list \<Rightarrow> bool"
  can_chdir :: "string \<Rightarrow> bool"
  can_exec :: "string \<Rightarrow> bool"

text \<open>
  The calls a child makes, in order, with their arguments: \<open>Open path flags mode result\<close>
  (the pathname is \<open>None\<close> when the source passes a null pointer), \<open>Dup2 oldfd newfd\<close>,
  \<open>Close fd\<close>, \<open>Perror prefix\<close>, \<open>Exec prog argv\<close>, \<open>Exit status\<close>.
\<close>

datatype sys =
    Open "string option" "oflag list" "nat option" int
  | Dup2 int nat
  | Close int
  | Perror string
  | Exec "string option" "string list"
  | Exit nat

record child =
  c_fds :: fdtable
  c_trace :: "sys list"

definition sys_open :: "os \<Rightarrow> string option \<Rightarrow> oflag list \<Rightarrow> nat option \<Rightarrow> child \<Rightarrow> int \<times> child" where
  "sys_open os path flags mode c =
     (case path of
        None \<Rightarrow> (- 1, c\<lparr>c_trace := c_trace c @ [Open None flags mode (- 1)]\<rparr>)
      | Some p \<Rightarrow>
          if can_open os p flags
          then (let n = lowest_free (c_fds c)
                in (int n, c\<lparr>c_fds := fd_set (c_fds c) n (Some (FileOpen p flags)),
                              c_trace := c_trace c @ [Open path flags mode (int n)]\<rparr>))
          else (- 1, c\<lparr>c_trace := c_trace c @ [Open path flags mode (- 1)]\<rparr>))"

definition sys_dup2 :: "int \<Rightarrow> nat \<Rightarrow> child \<Rightarrow> child" where
  "sys_dup2 oldfd newfd c =
     c\<lparr>c_fds := fd_dup2 (c_fds c) oldfd newfd, c_trace := c_trace c @ [Dup2 oldfd newfd]\<rparr>"

definition sys_close :: "int \<Rightarrow> child \<Rightarrow> child" where
  "sys_close fd c = c\<lparr>c_fds := fd_close (c_fds c) fd, c_trace := c_trace c @ [Close fd]\<rparr>"

definition perror :: "string \<Rightarrow> child \<Rightarrow> child" where
  "perror s c = c\<lparr>c_trace := c_trace c @ [Perror s]\<rparr>"

section \<open>handle_redirection\<close>

text \<open>
  \<^verbatim>\<open>
  void handle_redirection(char **args) {
      for (int i = 0; args[i]; i++) {
          if (strcmp(args[i], ">") == 0) {
              int fd = open(args[i+1], O_WRONLY | O_CREAT | O_TRUNC, 0644);
              dup2(fd, STDOUT_FILENO);
              close(fd);
              args[i] = NULL;
          } else if (strcmp(args[i], ">>") == 0) {
              int fd = open(args[i+1], O_WRONLY | O_CREAT | O_APPEND, 0644);
              dup2(fd, STDOUT_FILENO);
              close(fd);
              args[i] = NULL;
          } else if (strcmp(args[i], "<") == 0) {
              int fd = open(args[i+1], O_RDONLY);
              if (fd < 0) perror("open");
              dup2(fd, STDIN_FILENO);
              close(fd);
              args[i] = NULL;
          }
      }
  }
  \<close>
  Slot \<open>i\<close> has just been loaded when it is overwritten, so that write is a plain list
  update; the read of slot \<open>i + 1\<close> goes through \<open>load\<close>.
\<close>

function handle_redirection_loop :: "os \<Rightarrow> nat \<Rightarrow> cell list \<Rightarrow> child \<Rightarrow> fault + (cell list \<times> child)" where
  "handle_redirection_loop os i args c =
     (case load args i of
        Inl f \<Rightarrow> Inl f
      | Inr None \<Rightarrow> Inr (args, c)
      | Inr (Some a) \<Rightarrow>
          if a = ''>'' then
            (case load args (i + 1) of
               Inl f \<Rightarrow> Inl f
             | Inr path \<Rightarrow>
                 (case sys_open os path [O_WRONLY, O_CREAT, O_TRUNC] (Some mode_0644) c of
                    (fd, c1) \<Rightarrow>
                      handle_redirection_loop os (Suc i) (args[i := Null])
                        (sys_close fd (sys_dup2 fd 1 c1))))
          else if a = ''>>'' then
            (case load args (i + 1) of
               Inl f \<Rightarrow> Inl f
             | Inr path \<Rightarrow>
                 (case sys_open os path [O_WRONLY, O_CREAT, O_APPEND] (Some mode_0644) c of
                    (fd, c1) \<Rightarrow>
                      handle_redirection_loop os (Suc i) (args[i := Null])
                        (sys_close fd (sys_dup2 fd 1 c1))))
          else if a = ''<'' then
            (case load args (i + 1) of
               Inl f \<Rightarrow> Inl f
             | Inr path \<Rightarrow>
                 (case sys_open os path [O_RDONLY] None c of
                    (fd, c1) \<Rightarrow>
                      handle_redirection_loop os (Suc i) (args[i := Null])
                        (sys_close fd (sys_dup2 fd 0 (if fd < 0 then perror ''open'' c1 else c1)))))
          else handle_redirection_loop os (Suc i) args c)"
  by pat_completeness auto
termination
  by (relation "measure (\<lambda>(os, i, args, c). length args - i)")
     (auto simp: load_def split: if_splits)

definition handle_redirection :: "os \<Rightarrow> cell list \<Rightarrow> child \<Rightarrow> fault + (cell list \<times> child)" where
  "handle_redirection os args c = handle_redirection_loop os 0 args c"

section \<open>execvp and the child of a simple command\<close>

text \<open>
  \<^verbatim>\<open>execvp(args[0], args)\<close> reads the characters of the program name, which is undefined
  when \<^verbatim>\<open>args[0]\<close> is the null pointer, and the argument vector up to its first null
  pointer. When the program cannot be executed the call returns and the child runs
  \<^verbatim>\<open>perror("exec"); exit(1);\<close>.
\<close>

function read_argv :: "cell list \<Rightarrow> nat \<Rightarrow> fault + string list" where
  "read_argv args i =
     (case load args i of
        Inl f \<Rightarrow> Inl f
      | Inr None \<Rightarrow> Inr []
      | Inr (Some a) \<Rightarrow>
          (case read_argv args (Suc i) of Inl f \<Rightarrow> Inl f | Inr as \<Rightarrow> Inr (a # as)))"
  by pat_completeness auto
termination
  by (relation "measure (\<lambda>(args, i). length args - i)")
     (auto simp: load_def split: if_splits)

definition execvp :: "os \<Rightarrow> cell list \<Rightarrow> child \<Rightarrow> fault + child" where
  "execvp os args c =
     (case load args 0 of
        Inl f \<Rightarrow> Inl f
      | Inr None \<Rightarrow> Inl NullPointer
      | Inr (Some p) \<Rightarrow>
          (case read_argv args 0 of
             Inl f \<Rightarrow> Inl f
           | Inr argv \<Rightarrow>
               if can_exec os p
               then Inr (c\<lparr>c_trace := c_trace c @ [Exec (Some p) argv]\<rparr>)
               else Inr (c\<lparr>c_trace := c_trace c @
                           [Exec (Some p) argv, Perror ''exec'', Exit 1]\<rparr>)))"

text \<open>
  The child of \<^verbatim>\<open>shell_loop\<close> (lines 220-224), which is also what the child of the last
  command of \<^verbatim>\<open>execute_pipeline\<close> runs after its \<^verbatim>\<open>dup2\<close> (lines 177-180):
  \<^verbatim>\<open>handle_redirection(args); execvp(args[0], args); perror("exec"); exit(1);\<close>
\<close>

definition redirect_and_exec :: "os \<Rightarrow> cell list \<Rightarrow> child \<Rightarrow> fault + child" where
  "redirect_and_exec os args c =
     (case handle_redirection os args c of
        Inl f \<Rightarrow> Inl f
      | Inr (args', c') \<Rightarrow> execvp os args' c')"

section \<open>The shell process\<close>

text \<open>
  What the shell itself does, in order: \<open>Pipe rd wr\<close> (the two descriptors that
  \<^verbatim>\<open>pipe\<close> returned), \<open>Fork pid run\<close> (the process identifier, and what the child
  does from its copy of the descriptor table), \<open>Wait\<close> for \<^verbatim>\<open>wait(NULL)\<close>,
  \<open>Waitpid pid\<close>, \<open>ParentClose fd\<close>, and the effects of the built-in commands.
  \<^verbatim>\<open>pipe\<close> and \<^verbatim>\<open>fork\<close> are taken to succeed: the source never looks at what
  \<^verbatim>\<open>pipe\<close> returns, and uses what \<^verbatim>\<open>fork\<close> returns only to tell child from parent.
  A call of \<^verbatim>\<open>wait\<close> or \<^verbatim>\<open>waitpid\<close> is recorded when it is issued, and the shell goes
  on as if it had returned: the steps recorded after a wait are those of the runs in which
  that wait returns, and a run in which it blocks has made the steps up to it.
\<close>

datatype event =
    Pipe nat nat
  | Fork nat "fault + child"
  | Wait
  | Waitpid nat
  | ParentClose int
  | Chdir "string option"
  | ParentPerror string
  | ShowHistory "(nat \<times> string) list"
  | ShellExit nat
  | Prompt

text \<open>
  The state of the shell process: its descriptor table, what it has done so far, the
  counters that name the next child and the next pipe, the pointer \<^verbatim>\<open>strtok\<close> keeps,
  the globals \<^verbatim>\<open>history\<close> (with \<^verbatim>\<open>history_count\<close> its length), the environment, and
  whether \<^verbatim>\<open>exit\<close> has been called.
\<close>

record shell =
  fds :: fdtable
  events :: "event list"
  next_pid :: nat
  next_pipe :: nat
  strtok_saved :: string
  history :: "string list"
  env :: "(string \<times> string) list"
  exited :: bool

definition sys_pipe :: "shell \<Rightarrow> (nat \<times> nat) \<times> shell" where
  "sys_pipe sh =
     (let rd = lowest_free (fds sh);
          t1 = fd_set (fds sh) rd (Some (PipeRead (next_pipe sh)));
          wr = lowest_free t1;
          t2 = fd_set t1 wr (Some (PipeWrite (next_pipe sh)))
      in ((rd, wr), sh\<lparr>fds := t2, events := events sh @ [Pipe rd wr],
                         next_pipe := Suc (next_pipe sh)\<rparr>))"

definition sys_fork :: "(fdtable \<Rightarrow> fault + child) \<Rightarrow> shell \<Rightarrow> shell" where
  "sys_fork run sh =
     sh\<lparr>events := events sh @ [Fork (next_pid sh) (run (fds sh))], next_pid := Suc (next_pid sh)\<rparr>"

definition sys_wait :: "shell \<Rightarrow> shell" where
  "sys_wait sh = sh\<lparr>events := events sh @ [Wait]\<rparr>"

definition sys_waitpid :: "nat \<Rightarrow> shell \<Rightarrow> shell" where
  "sys_waitpid pid sh = sh\<lparr>events := events sh @ [Waitpid pid]\<rparr>"

definition parent_close :: "int \<Rightarrow> shell \<Rightarrow> shell" where
  "parent_close fd sh = sh\<lparr>fds := fd_close (fds sh) fd, events := events sh @ [ParentClose fd]\<rparr>"

section \<open>execute_pipeline\<close>

text \<open>
  \<^verbatim>\<open>
  char *commands[10];
  int num_cmds = 0;
  commands[num_cmds++] = strtok(line, "|");
  while ((commands[num_cmds++] = strtok(NULL, "|")) != NULL);
  \<close>
\<close>

function split_commands_loop :: "nat \<Rightarrow> cell list \<Rightarrow> string \<Rightarrow> fault + (nat \<times> cell list \<times> string)" where
  "split_commands_loop num_cmds commands saved =
     (case strtok None ''|'' saved of
        (t, saved') \<Rightarrow>
          (case store commands num_cmds t of
             Inl f \<Rightarrow> Inl f
           | Inr commands' \<Rightarrow>
               if t \<noteq> None then split_commands_loop (Suc num_cmds) commands' saved'
               else Inr (Suc num_cmds, commands', saved')))"
  by pat_completeness auto
termination
  by (relation "measure (\<lambda>(num_cmds, commands, saved). length commands - num_cmds)")
     (auto simp: store_def split: if_splits)

definition split_commands :: "string \<Rightarrow> string \<Rightarrow> fault + (nat \<times> cell list \<times> string)" where
  "split_commands line saved =
     (case strtok (Some line) ''|'' saved of
        (t, saved') \<Rightarrow>
          (case store (fresh_array 10) 0 t of
             Inl f \<Rightarrow> Inl f
           | Inr commands \<Rightarrow> split_commands_loop 1 commands saved'))"

text \<open>
  The child of one turn of the loop (lines 156-164):
  \<^verbatim>\<open>
  dup2(in_fd, 0);
  dup2(pipefd[1], 1);
  close(pipefd[0]);
  char *args[MAX_ARGS];
  parse_args(commands[i], args);
  handle_redirection(args);
  execvp(args[0], args);
  perror("exec");
  exit(1);
  \<close>
\<close>

definition stage_child ::
  "os \<Rightarrow> int \<Rightarrow> nat \<times> nat \<Rightarrow> cell list \<Rightarrow> nat \<Rightarrow> string \<Rightarrow> fdtable \<Rightarrow> fault + child" where
  "stage_child os in_fd pipefd commands i saved t =
     (let c = sys_close (int (fst pipefd))
                (sys_dup2 (int (snd pipefd)) 1
                  (sys_dup2 in_fd 0 \<lparr>c_fds = t, c_trace = []\<rparr>))
      in case load commands i of
           Inl f \<Rightarrow> Inl f
         | Inr cmd \<Rightarrow>
             (case parse_args cmd (fresh_array MAX_ARGS) saved of
                Inl f \<Rightarrow> Inl f
              | Inr (args, saved') \<Rightarrow> redirect_and_exec os args c))"

text \<open>
  The child of the last command (lines 176-180):
  \<^verbatim>\<open>dup2(in_fd, 0); handle_redirection(args); execvp(args[0], args); perror("exec"); exit(1);\<close>
\<close>

definition last_child :: "os \<Rightarrow> int \<Rightarrow> cell list \<Rightarrow> fdtable \<Rightarrow> fault + child" where
  "last_child os in_fd args t =
     redirect_and_exec os args (sys_dup2 in_fd 0 \<lparr>c_fds = t, c_trace = []\<rparr>)"

text \<open>
  \<^verbatim>\<open>
  int in_fd = 0;
  for (int i=0; i<num_cmds-1; i++) {
      int pipefd[2];
      pipe(pipefd);
      if (fork() == 0) { ... }
      wait(NULL);
      close(pipefd[1]);
      in_fd = pipefd[0];
  }
  \<close>
\<close>

function pipeline_loop :: "os \<Rightarrow> cell list \<Rightarrow> nat \<Rightarrow> string \<Rightarrow> nat \<Rightarrow> int \<Rightarrow> shell \<Rightarrow> int \<times> shell" where
  "pipeline_loop os commands num_cmds saved i in_fd sh =
     (if i < num_cmds - 1
      then (case sys_pipe sh of
              (pipefd, sh1) \<Rightarrow>
                pipeline_loop os commands num_cmds saved (Suc i) (int (fst pipefd))
                  (parent_close (int (snd pipefd))
                    (sys_wait
                      (sys_fork (stage_child os in_fd pipefd commands i saved) sh1))))
      else (in_fd, sh))"
  by pat_completeness auto
termination
  by (relation "measure (\<lambda>(os, commands, num_cmds, saved, i, in_fd, sh). num_cmds - 1 - i)") auto

text \<open>
  \<^verbatim>\<open>
  // Last command
  char *args[MAX_ARGS];
  parse_args(commands[num_cmds-2], args);
  if (fork() == 0) { ... }
  wait(NULL);
  \<close>
\<close>

definition execute_pipeline :: "os \<Rightarrow> string \<Rightarrow> shell \<Rightarrow> fault + shell" where
  "execute_pipeline os line sh =
     (case split_commands line (strtok_saved sh) of
        Inl f \<Rightarrow> Inl f
      | Inr (num_cmds, commands, saved) \<Rightarrow>
          (case pipeline_loop os commands num_cmds saved 0 0 sh of
             (in_fd, sh1) \<Rightarrow>
               (case load commands (num_cmds - 2) of
                  Inl f \<Rightarrow> Inl f
                | Inr cmd \<Rightarrow>
                    (case parse_args cmd (fresh_array MAX_ARGS) saved of
                       Inl f \<Rightarrow> Inl f
                     | Inr (args, saved') \<Rightarrow>
                         Inr (sys_wait
                               (sys_fork (last_child os in_fd args)
                                 (sh1\<lparr>strtok_saved := saved'\<rparr>)))))))"

section \<open>History, variable expansion, built-in commands\<close>

text \<open>
  \<^verbatim>\<open>
  void add_history(char *line) {
      if (history_count < MAX_HISTORY)
          history[history_count++] = strdup(line);
  }
  void show_history() {
      for (int i = 0; i < history_count; i++)
          printf("%d %s\n", i + 1, history[i]);
  }
  void trim_newline(char *line) {
      line[strcspn(line, "\n")] = 0;
  }
  \<close>
\<close>

definition add_history :: "string \<Rightarrow> shell \<Rightarrow> shell" where
  "add_history line sh =
     (if length (history sh) < MAX_HISTORY then sh\<lparr>history := history sh @ [line]\<rparr> else sh)"

definition show_history :: "shell \<Rightarrow> shell" where
  "show_history sh =
     sh\<lparr>events := events sh @
            [ShowHistory (map (\<lambda>i. (i + 1, history sh ! i)) [0..<length (history sh)])]\<rparr>"

definition trim_newline :: "string \<Rightarrow> string" where
  "trim_newline line = takeWhile (\<lambda>c. c \<noteq> CHR 0x0A) line"

text \<open>
  The environment is a list of names with their values. \<^verbatim>\<open>getenv\<close> finds no variable
  with the empty name, which is the name that \<open>expand_variables\<close> asks for when no letter,
  digit or underscore follows the dollar sign.
\<close>

definition getenv :: "(string \<times> string) list \<Rightarrow> string \<Rightarrow> string option" where
  "getenv e name = (if name = [] then None else map_of e name)"

definition setenv :: "string \<Rightarrow> string \<Rightarrow> (string \<times> string) list \<Rightarrow> (string \<times> string) list" where
  "setenv name val e = (name, val) # filter (\<lambda>p. fst p \<noteq> name) e"

text \<open>\<^verbatim>\<open>isalnum\<close> in the C locale.\<close>

definition isalnum :: "char \<Rightarrow> bool" where
  "isalnum c =
     (let n = (of_char c :: nat)
      in (48 \<le> n \<and> n \<le> 57) \<or> (65 \<le> n \<and> n \<le> 90) \<or> (97 \<le> n \<and> n \<le> 122))"

definition name_char :: "char \<Rightarrow> bool" where
  "name_char c = (isalnum c \<or> c = CHR ''_'')"

text \<open>
  \<^verbatim>\<open>
  void expand_variables(char *line) {
      char buffer[MAX_INPUT] = {0};
      char var[128];
      int i = 0;
      while (line[i]) {
          if (line[i] == '$') {
              i++;
              int k = 0;
              while (isalnum(line[i]) || line[i]=='_')
                  var[k++] = line[i++];
              var[k] = '\0';
              char *val = getenv(var);
              if (val)
                  strcat(buffer, val);
          } else {
              strncat(buffer, &line[i], 1);
              i++;
          }
      }
      strcpy(line, buffer);
  }
  \<close>
  A name of 128 characters or more does not fit \<^verbatim>\<open>var\<close> with its terminator, and a
  result of \<open>MAX_INPUT\<close> characters or more does not fit \<^verbatim>\<open>buffer\<close> with its terminator.
\<close>

function expand_loop :: "(string \<times> string) list \<Rightarrow> string \<Rightarrow> string \<Rightarrow> fault + string" where
  "expand_loop e [] buffer = Inr buffer"
| "expand_loop e (c # cs) buffer =
     (if c = CHR ''$'' then
        (if 128 \<le> length (takeWhile name_char cs) then Inl BufferOverflow
         else (case getenv e (takeWhile name_char cs) of
                 None \<Rightarrow> expand_loop e (dropWhile name_char cs) buffer
               | Some val \<Rightarrow>
                   if MAX_INPUT \<le> length buffer + length val then Inl BufferOverflow
                   else expand_loop e (dropWhile name_char cs) (buffer @ val)))
      else if MAX_INPUT \<le> length buffer + 1 then Inl BufferOverflow
      else expand_loop e cs (buffer @ [c]))"
  by pat_completeness auto
termination
  by (relation "measure (\<lambda>(e, line, buffer). length line)")
     (auto simp: length_dropWhile_le less_Suc_eq_le)

definition expand_variables :: "(string \<times> string) list \<Rightarrow> string \<Rightarrow> fault + string" where
  "expand_variables e line = expand_loop e line []"

text \<open>
  \<^verbatim>\<open>
  int handle_builtin(char **args) {
      if (!args[0]) return 1;
      if (strcmp(args[0], "exit") == 0)
          exit(0);
      if (strcmp(args[0], "cd") == 0) {
          if (!args[1])
              chdir(getenv("HOME"));
          else if (chdir(args[1]) != 0)
              perror("cd");
          return 1;
      }
      if (strcmp(args[0], "history") == 0) {
          show_history();
          return 1;
      }
      if (strcmp(args[0], "export") == 0) {
          if (args[1]) {
              char *key = strtok(args[1], "=");
              char *val = strtok(NULL, "=");
              if (key && val)
                  setenv(key, val, 1);
          }
          return 1;
      }
      return 0;
  }
  \<close>
  The result is the returned flag and the shell afterwards; after \<^verbatim>\<open>exit(0)\<close> the shell
  is marked \<open>exited\<close>.
\<close>

definition builtin_cd :: "os \<Rightarrow> cell list \<Rightarrow> shell \<Rightarrow> fault + (bool \<times> shell)" where
  "builtin_cd os args sh =
     (case load args 1 of
        Inl f \<Rightarrow> Inl f
      | Inr None \<Rightarrow> Inr (True, sh\<lparr>events := events sh @ [Chdir (getenv (env sh) ''HOME'')]\<rparr>)
      | Inr (Some dir) \<Rightarrow>
          if can_chdir os dir
          then Inr (True, sh\<lparr>events := events sh @ [Chdir (Some dir)]\<rparr>)
          else Inr (True, sh\<lparr>events := events sh @ [Chdir (Some dir), ParentPerror ''cd'']\<rparr>))"

definition builtin_export :: "cell list \<Rightarrow> shell \<Rightarrow> fault + (bool \<times> shell)" where
  "builtin_export args sh =
     (case load args 1 of
        Inl f \<Rightarrow> Inl f
      | Inr None \<Rightarrow> Inr (True, sh)
      | Inr (Some a) \<Rightarrow>
          (case strtok (Some a) ''='' (strtok_saved sh) of
             (key, saved1) \<Rightarrow>
               (case strtok None ''='' saved1 of
                  (val, saved2) \<Rightarrow>
                    (case (key, val) of
                       (Some k, Some v) \<Rightarrow>
                         Inr (True, sh\<lparr>strtok_saved := saved2, env := setenv k v (env sh)\<rparr>)
                     | _ \<Rightarrow> Inr (True, sh\<lparr>strtok_saved := saved2\<rparr>)))))"

definition handle_builtin :: "os \<Rightarrow> cell list \<Rightarrow> shell \<Rightarrow> fault + (bool \<times> shell)" where
  "handle_builtin os args sh =
     (case load args 0 of
        Inl f \<Rightarrow> Inl f
      | Inr None \<Rightarrow> Inr (True, sh)
      | Inr (Some a) \<Rightarrow>
          if a = ''exit'' then Inr (True, sh\<lparr>events := events sh @ [ShellExit 0], exited := True\<rparr>)
          else if a = ''cd'' then builtin_cd os args sh
          else if a = ''history'' then Inr (True, show_history sh)
          else if a = ''export'' then builtin_export args sh
          else Inr (False, sh))"

section \<open>shell_loop\<close>

text \<open>
  \<^verbatim>\<open>
  int background = 0;
  int i=0;
  while (args[i]) i++;
  if (i>0 && strcmp(args[i-1], "&")==0) {
      background = 1;
      args[i-1] = NULL;
  }
  \<close>
\<close>

function count_args :: "cell list \<Rightarrow> nat \<Rightarrow> fault + nat" where
  "count_args args i =
     (case load args i of
        Inl f \<Rightarrow> Inl f
      | Inr None \<Rightarrow> Inr i
      | Inr (Some a) \<Rightarrow> count_args args (Suc i))"
  by pat_completeness auto
termination
  by (relation "measure (\<lambda>(args, i). length args - i)")
     (auto simp: load_def split: if_splits)

definition background_flag :: "cell list \<Rightarrow> fault + (bool \<times> cell list)" where
  "background_flag args =
     (case count_args args 0 of
        Inl f \<Rightarrow> Inl f
      | Inr i \<Rightarrow>
          if 0 < i
          then (case load args (i - 1) of
                  Inl f \<Rightarrow> Inl f
                | Inr a \<Rightarrow>
                    if a = Some ''&'' then Inr (True, args[i - 1 := Null])
                    else Inr (False, args))
          else Inr (False, args))"

text \<open>
  One turn of the loop of \<^verbatim>\<open>shell_loop\<close>, from the buffer that \<^verbatim>\<open>fgets\<close> filled:
  \<^verbatim>\<open>
  trim_newline(line);
  if (strlen(line) == 0) continue;
  add_history(line);
  expand_variables(line);
  if (strchr(line, '|')) {
      execute_pipeline(line);
      continue;
  }
  char *args[MAX_ARGS];
  parse_args(line, args);
  ... background ...
  if (!handle_builtin(args)) {
      pid_t pid = fork();
      if (pid == 0) {
          handle_redirection(args);
          execvp(args[0], args);
          perror("exec");
          exit(1);
      } else if (!background) {
          waitpid(pid, NULL, 0);
      }
  }
  \<close>
\<close>

definition run_command :: "os \<Rightarrow> string \<Rightarrow> shell \<Rightarrow> fault + shell" where
  "run_command os line sh =
     (case parse_args (Some line) (fresh_array MAX_ARGS) (strtok_saved sh) of
        Inl f \<Rightarrow> Inl f
      | Inr (args0, saved) \<Rightarrow>
          (case background_flag args0 of
             Inl f \<Rightarrow> Inl f
           | Inr (background, args) \<Rightarrow>
               (case handle_builtin os args (sh\<lparr>strtok_saved := saved\<rparr>) of
                  Inl f \<Rightarrow> Inl f
                | Inr (handled, sh1) \<Rightarrow>
                    if handled then Inr sh1
                    else (let pid = next_pid sh1;
                              sh2 = sys_fork
                                      (\<lambda>t. redirect_and_exec os args \<lparr>c_fds = t, c_trace = []\<rparr>)
                                      sh1
                          in if \<not> background then Inr (sys_waitpid pid sh2) else Inr sh2))))"

definition shell_iteration :: "os \<Rightarrow> string \<Rightarrow> shell \<Rightarrow> fault + shell" where
  "shell_iteration os buf sh =
     (let line = trim_newline buf
      in if length line = 0 then Inr sh
         else (let sh1 = add_history line sh
               in case expand_variables (env sh1) line of
                    Inl f \<Rightarrow> Inl f
                  | Inr line1 \<Rightarrow>
                      if CHR ''|'' \<in> set line1 then execute_pipeline os line1 sh1
                      else run_command os line1 sh1))"

text \<open>
  The loop itself, over the buffers that the successive calls of \<^verbatim>\<open>fgets\<close> fill; it ends
  when \<^verbatim>\<open>fgets\<close> returns \<^verbatim>\<open>NULL\<close> or a command has called \<^verbatim>\<open>exit\<close>. The prompt is
  printed when the input is the terminal. The buffers are what \<^verbatim>\<open>fgets\<close> gives to the
  shell; what a child reads from the same input is not among them.
\<close>

fun shell_loop :: "os \<Rightarrow> bool \<Rightarrow> string list \<Rightarrow> shell \<Rightarrow> fault + shell" where
  "shell_loop os interactive [] sh =
     Inr (if interactive then sh\<lparr>events := events sh @ [Prompt]\<rparr> else sh)"
| "shell_loop os interactive (buf # bufs) sh =
     (case shell_iteration os buf (if interactive then sh\<lparr>events := events sh @ [Prompt]\<rparr> else sh) of
        Inl f \<Rightarrow> Inl f
      | Inr sh' \<Rightarrow> if exited sh' then Inr sh' else shell_loop os interactive bufs sh')"

section \<open>Notions used in the statements\<close>

subsection \<open>Arrays of tokens\<close>

text \<open>
  The array once slots \<open>i\<close>, \<open>i + 1\<close>, ... have received the tokens \<open>ts\<close>: all of them and
  a null pointer when they fit, as many as fit otherwise.
\<close>

definition filled :: "nat \<Rightarrow> cell list \<Rightarrow> string list \<Rightarrow> cell list" where
  "filled i args ts =
     (if i + length ts < MAX_ARGS
      then take i args @ map Ptr ts @ Null # drop (Suc (i + length ts)) args
      else take i args @ map Ptr (take (MAX_ARGS - i) ts))"

text \<open>The string a call of \<open>strtok\<close> works on.\<close>

definition strtok_source :: "string option \<Rightarrow> string \<Rightarrow> string" where
  "strtok_source s saved = (case s of None \<Rightarrow> saved | Some t \<Rightarrow> t)"

subsection \<open>Redirections of a token list\<close>

text \<open>
  The three redirection operators, and for each the flags, the permission bits and the
  standard stream that the source uses with it.
\<close>

definition is_redir :: "string \<Rightarrow> bool" where
  "is_redir t = (t = ''>'' \<or> t = ''>>'' \<or> t = ''<'')"

definition flags_for :: "string \<Rightarrow> oflag list" where
  "flags_for op =
     (if op = ''<'' then [O_RDONLY]
      else if op = ''>'' then [O_WRONLY, O_CREAT, O_TRUNC]
      else [O_WRONLY, O_CREAT, O_APPEND])"

definition mode_for :: "string \<Rightarrow> nat option" where
  "mode_for op = (if op = ''<'' then None else Some mode_0644)"

definition stream_of :: "string \<Rightarrow> nat" where
  "stream_of op = (if op = ''<'' then 0 else 1)"

definition next_token :: "string list \<Rightarrow> string option" where
  "next_token ts = (case ts of [] \<Rightarrow> None | f # _ \<Rightarrow> Some f)"






subsection \<open>The loop of handle_redirection on a token list\<close>

text \<open>
  One turn of the loop at a redirection operator, and the whole loop, as functions of the
  tokens that the array holds; \<open>nulled\<close> is what the loop leaves in the slot of a token.
\<close>

definition redirect :: "os \<Rightarrow> string \<Rightarrow> string option \<Rightarrow> child \<Rightarrow> child" where
  "redirect os op path c =
     (case sys_open os path (flags_for op) (mode_for op) c of
        (fd, c1) \<Rightarrow>
          sys_close fd (sys_dup2 fd (stream_of op)
            (if op = ''<'' \<and> fd < 0 then perror ''open'' c1 else c1)))"

fun redirect_all :: "os \<Rightarrow> string list \<Rightarrow> child \<Rightarrow> child" where
  "redirect_all os [] c = c"
| "redirect_all os (t # ts) c =
     redirect_all os ts (if is_redir t then redirect os t (next_token ts) c else c)"

definition nulled :: "string \<Rightarrow> cell" where
  "nulled t = (if is_redir t then Null else Ptr t)"

text \<open>
  The slot \<^verbatim>\<open>args[0]\<close> after the loop: the null pointer when there is no token or the first
  token is a redirection operator. \<open>child_run\<close> is the child that runs the loop and then
  \<^verbatim>\<open>execvp\<close> on the tokens \<open>ts\<close>.
\<close>

definition first_arg :: "string list \<Rightarrow> string option" where
  "first_arg ts = (case ts of [] \<Rightarrow> None | t # _ \<Rightarrow> if is_redir t then None else Some t)"

definition exec_events :: "os \<Rightarrow> string \<Rightarrow> string list \<Rightarrow> sys list" where
  "exec_events os p argv =
     (if can_exec os p then [Exec (Some p) argv]
      else [Exec (Some p) argv, Perror ''exec'', Exit 1])"

definition child_run :: "os \<Rightarrow> string list \<Rightarrow> child \<Rightarrow> fault + child" where
  "child_run os ts c =
     (case first_arg ts of
        None \<Rightarrow> Inl NullPointer
      | Some p \<Rightarrow>
          Inr ((redirect_all os ts c)\<lparr>c_trace := c_trace (redirect_all os ts c) @
                 exec_events os p (takeWhile (\<lambda>t. \<not> is_redir t) ts)\<rparr>))"

subsection \<open>Reading a trace\<close>


fun exec_argvs :: "sys list \<Rightarrow> string list list" where
  "exec_argvs [] = []"
| "exec_argvs (Exec prog argv # es) = argv # exec_argvs es"
| "exec_argvs (e # es) = exec_argvs es"

text \<open>
  For the children that the shell forked, in order: what each one did, and the argument
  vectors each one passed to \<^verbatim>\<open>execvp\<close>.
\<close>

fun fork_traces :: "event list \<Rightarrow> (fault + sys list) list" where
  "fork_traces [] = []"
| "fork_traces (Fork pid run # es) =
     (case run of Inl f \<Rightarrow> Inl f | Inr c \<Rightarrow> Inr (c_trace c)) # fork_traces es"
| "fork_traces (e # es) = fork_traces es"

fun fork_argvs :: "event list \<Rightarrow> string list list" where
  "fork_argvs [] = []"
| "fork_argvs (Fork pid run # es) =
     (case run of Inl f \<Rightarrow> [] | Inr c \<Rightarrow> exec_argvs (c_trace c)) @ fork_argvs es"
| "fork_argvs (e # es) = fork_argvs es"

text \<open>
  What each forked child came to, in order: the fault that ended it, or the argument
  vectors of its calls of \<^verbatim>\<open>execvp\<close>.
\<close>

definition run_argvs :: "fault + child \<Rightarrow> fault + string list list" where
  "run_argvs run = (case run of Inl f \<Rightarrow> Inl f | Inr c \<Rightarrow> Inr (exec_argvs (c_trace c)))"

fun fork_results :: "event list \<Rightarrow> (fault + string list list) list" where
  "fork_results [] = []"
| "fork_results (Fork pid run # es) = run_argvs run # fork_results es"
| "fork_results (e # es) = fork_results es"

text \<open>The same two readings of the result of a turn of the shell.\<close>

definition children_of :: "fault + shell \<Rightarrow> fault + (fault + sys list) list" where
  "children_of r = (case r of Inl f \<Rightarrow> Inl f | Inr sh \<Rightarrow> Inr (fork_traces (events sh)))"


text \<open>The argument vector that the child of a command text passes to \<^verbatim>\<open>execvp\<close>.\<close>

definition argv_of :: "string \<Rightarrow> string list" where
  "argv_of cmd = takeWhile (\<lambda>t. \<not> is_redir t) (tokens CHR '' '' cmd)"

text \<open>
  What the child of a command text comes to: one call of \<^verbatim>\<open>execvp\<close> with that argument
  vector, or the fault of \<^verbatim>\<open>execvp\<close> on the null pointer when the command has no program
  name.
\<close>

definition exec_of :: "string \<Rightarrow> fault + string list list" where
  "exec_of cmd =
     (case first_arg (tokens CHR '' '' cmd) of
        None \<Rightarrow> Inl NullPointer
      | Some p \<Rightarrow> Inr [argv_of cmd])"

text \<open>
  The kind of each step of the shell, and the steps that wait for a child. A sequence of
  kinds has its forks before its waits when no fork comes after the first wait.
\<close>

datatype kind = KPipe | KFork | KWait | KClose | KOther

definition kind_of :: "event \<Rightarrow> kind" where
  "kind_of e =
     (case e of Pipe rd wr \<Rightarrow> KPipe | Fork pid run \<Rightarrow> KFork | Wait \<Rightarrow> KWait
      | Waitpid pid \<Rightarrow> KWait | ParentClose fd \<Rightarrow> KClose | _ \<Rightarrow> KOther)"

definition is_wait :: "event \<Rightarrow> bool" where
  "is_wait e = (case e of Wait \<Rightarrow> True | Waitpid pid \<Rightarrow> True | _ \<Rightarrow> False)"

definition forks_before_waits :: "kind list \<Rightarrow> bool" where
  "forks_before_waits ks = (KFork \<notin> set (dropWhile (\<lambda>k. k \<noteq> KWait) ks))"

text \<open>The kinds of the steps in the result of a turn of the shell.\<close>

definition kinds_of :: "fault + shell \<Rightarrow> fault + kind list" where
  "kinds_of r = (case r of Inl f \<Rightarrow> Inl f | Inr sh \<Rightarrow> Inr (map kind_of (events sh)))"

text \<open>The read ends of the pipes that the shell created.\<close>

fun pipe_read_ends :: "event list \<Rightarrow> nat list" where
  "pipe_read_ends [] = []"
| "pipe_read_ends (Pipe rd wr # es) = rd # pipe_read_ends es"
| "pipe_read_ends (e # es) = pipe_read_ends es"

subsection \<open>Commands of shell_loop\<close>

text \<open>
  Whether the tokens of a line end with \<^verbatim>\<open>&\<close>, the names of the built-in commands, and
  the argument array of a line with the tokens \<open>ts\<close> after the test for \<^verbatim>\<open>&\<close>.
\<close>

definition background_of :: "string list \<Rightarrow> bool" where
  "background_of ts = (ts \<noteq> [] \<and> last ts = ''&'')"

definition builtin_name :: "string \<Rightarrow> bool" where
  "builtin_name a = (a = ''exit'' \<or> a = ''cd'' \<or> a = ''history'' \<or> a = ''export'')"

definition command_array :: "string list \<Rightarrow> cell list" where
  "command_array ts =
     (if background_of ts then map Ptr (butlast ts) @ [Null, Null] else map Ptr ts @ [Null]) @
     replicate (MAX_ARGS - Suc (length ts)) Uninit"

subsection \<open>Turns of the loop of execute_pipeline\<close>

text \<open>
  The shell after one turn of the loop, the loop on the commands \<open>cs\<close>, and the set of
  open descriptors of a table.
\<close>

definition one_turn :: "os \<Rightarrow> cell list \<Rightarrow> string \<Rightarrow> nat \<Rightarrow> int \<Rightarrow> shell \<Rightarrow> shell" where
  "one_turn os commands saved i in_fd sh =
     parent_close (int (snd (fst (sys_pipe sh))))
       (sys_wait (sys_fork (stage_child os in_fd (fst (sys_pipe sh)) commands i saved)
          (snd (sys_pipe sh))))"

definition after_loop :: "os \<Rightarrow> string list \<Rightarrow> shell \<Rightarrow> int \<times> shell" where
  "after_loop os cs sh =
     pipeline_loop os (map Ptr cs @ Null # replicate (9 - length cs) Uninit) (Suc (length cs)) []
       0 0 sh"

definition opens :: "fdtable \<Rightarrow> nat set" where
  "opens t = {n. n < length t \<and> t ! n \<noteq> None}"

text \<open>
  One turn of the loop for a command with the tokens \<open>ts\<close>, and the loop for a list of
  commands given by their tokens: the shell creates a pipe, forks the child, waits, closes
  the write end, and goes on with the read end as \<^verbatim>\<open>in_fd\<close>.
\<close>

definition turn :: "os \<Rightarrow> string list \<Rightarrow> int \<Rightarrow> shell \<Rightarrow> shell" where
  "turn os ts in_fd sh =
     (case sys_pipe sh of
        ((rd, wr), sh1) \<Rightarrow>
          parent_close (int wr)
            (sys_wait
              (sys_fork
                 (\<lambda>t. child_run os ts
                         (sys_close (int rd)
                            (sys_dup2 (int wr) 1 (sys_dup2 in_fd 0 \<lparr>c_fds = t, c_trace = []\<rparr>))))
                 sh1)))"

fun turns :: "os \<Rightarrow> string list list \<Rightarrow> int \<Rightarrow> shell \<Rightarrow> int \<times> shell" where
  "turns os [] in_fd sh = (in_fd, sh)"
| "turns os (ts # tss) in_fd sh =
     turns os tss (int (fst (fst (sys_pipe sh)))) (turn os ts in_fd sh)"

subsection \<open>Tokens separated by white space\<close>

text \<open>
  The white-space characters of C (\<^verbatim>\<open>isspace\<close> in the C locale: space, tab, newline,
  vertical tab, form feed, carriage return), and the tokens of a line when every one of
  them separates tokens.
\<close>

definition isspace :: "char \<Rightarrow> bool" where
  "isspace c =
     (c = CHR '' '' \<or> c = CHR 0x09 \<or> c = CHR 0x0A \<or> c = CHR 0x0B \<or> c = CHR 0x0C \<or>
      c = CHR 0x0D)"

fun whitespace_pieces :: "string \<Rightarrow> string list" where
  "whitespace_pieces [] = [[]]"
| "whitespace_pieces (c # cs) =
     (if isspace c then [] # whitespace_pieces cs
      else (case whitespace_pieces cs of [] \<Rightarrow> [[c]] | f # fs \<Rightarrow> (c # f) # fs))"

definition whitespace_tokens :: "string \<Rightarrow> string list" where
  "whitespace_tokens s = filter (\<lambda>f. f \<noteq> []) (whitespace_pieces s)"

section \<open>Concrete inputs\<close>

text \<open>
  An operating system that grants every request, one that refuses every \<^verbatim>\<open>open\<close>, and a
  shell that has just started from a terminal: descriptors 0, 1 and 2 open, nothing done
  yet.
\<close>

definition os_grants :: os where
  "os_grants = \<lparr>can_open = (\<lambda>p flags. True), can_chdir = (\<lambda>d. True), can_exec = (\<lambda>p. True)\<rparr>"

definition os_refuses_open :: os where
  "os_refuses_open =
     \<lparr>can_open = (\<lambda>p flags. False), can_chdir = (\<lambda>d. True), can_exec = (\<lambda>p. True)\<rparr>"

definition shell0 :: shell where
  "shell0 =
     \<lparr>fds = [Some (Inherited 0), Some (Inherited 1), Some (Inherited 2)], events = [],
      next_pid = 1, next_pipe = 0, strtok_saved = [], history = [], env = [], exited = False\<rparr>"

declare parse_args_loop.simps [simp del]
declare handle_redirection_loop.simps [simp del]
declare read_argv.simps [simp del]
declare split_commands_loop.simps [simp del]
declare pipeline_loop.simps [simp del]
declare count_args.simps [simp del]

section \<open>Tokens and strtok\<close>

lemma tokens_Nil: "tokens d [] = []"
  by (simp add: tokens_def)

lemma tokens_Cons_delim: "tokens d (d # s) = tokens d s"
  by (simp add: tokens_def)

lemma tokens_dropWhile: "tokens d (dropWhile (\<lambda>c. c = d) s) = tokens d s"
  by (induction s) (auto simp: tokens_Cons_delim)

lemma pieces_nodelim: "d \<notin> set w \<Longrightarrow> pieces d (w @ d # s) = w # pieces d s"
  by (induction w) (auto split: list.splits)

lemma pieces_nodelim_end: "d \<notin> set w \<Longrightarrow> pieces d w = [w]"
  by (induction w) (auto split: list.splits)

lemma tokens_step:
  assumes "s \<noteq> []" "hd s \<noteq> d"
  shows "tokens d s =
           takeWhile (\<lambda>c. c \<noteq> d) s # tokens d (drop 1 (dropWhile (\<lambda>c. c \<noteq> d) s))"
proof (cases "dropWhile (\<lambda>c. c \<noteq> d) s")
  case Nil
  then have a: "\<forall>x\<in>set s. x \<noteq> d" by (simp add: dropWhile_eq_Nil_conv)
  then have b: "d \<notin> set s" by blast
  from a have c: "takeWhile (\<lambda>c. c \<noteq> d) s = s" by (simp add: takeWhile_eq_all_conv)
  have "tokens d s = [s]" using assms(1) pieces_nodelim_end[OF b] by (simp add: tokens_def)
  then show ?thesis unfolding c Nil by (simp add: tokens_Nil)
next
  case (Cons c cs)
  then have c: "c = d" using hd_dropWhile[of "\<lambda>c. c \<noteq> d" s] by force
  have s: "s = takeWhile (\<lambda>c. c \<noteq> d) s @ d # cs"
    using Cons c takeWhile_dropWhile_id[of "\<lambda>c. c \<noteq> d" s] by simp
  have nd: "d \<notin> set (takeWhile (\<lambda>c. c \<noteq> d) s)" by (auto dest: set_takeWhileD)
  have ne: "takeWhile (\<lambda>c. c \<noteq> d) s \<noteq> []" using assms by (cases s) auto
  have "pieces d s = takeWhile (\<lambda>c. c \<noteq> d) s # pieces d cs"
    using pieces_nodelim[OF nd, of cs] s by simp
  then show ?thesis using ne Cons by (simp add: tokens_def)
qed

lemma delim_singleton:
  "(\<lambda>c. c \<in> set [d]) = (\<lambda>c. c = d)" "(\<lambda>c. c \<notin> set [d]) = (\<lambda>c. c \<noteq> d)"
  by auto

lemma strtok_from_end:
  assumes "dropWhile (\<lambda>c. c = d) s = []"
  shows "strtok_from [d] s = (None, [])" "tokens d s = []"
proof -
  show "strtok_from [d] s = (None, [])"
    unfolding strtok_from_def Let_def delim_singleton assms by simp
  have "tokens d (dropWhile (\<lambda>c. c = d) s) = []" unfolding assms by (rule tokens_Nil)
  then show "tokens d s = []" by (simp only: tokens_dropWhile)
qed

lemma strtok_from_token:
  assumes "dropWhile (\<lambda>c. c = d) s \<noteq> []"
  shows "\<exists>t r. strtok_from [d] s = (Some t, r) \<and> tokens d s = t # tokens d r"
proof -
  let ?s1 = "dropWhile (\<lambda>c. c = d) s"
  have "hd ?s1 \<noteq> d" using assms hd_dropWhile[of "\<lambda>c. c = d" s] by simp
  from tokens_step[OF assms this]
  have "tokens d s =
          takeWhile (\<lambda>c. c \<noteq> d) ?s1 # tokens d (drop 1 (dropWhile (\<lambda>c. c \<noteq> d) ?s1))"
    by (simp only: tokens_dropWhile)
  moreover have "strtok_from [d] s =
      (Some (takeWhile (\<lambda>c. c \<noteq> d) ?s1), drop 1 (dropWhile (\<lambda>c. c \<noteq> d) ?s1))"
    unfolding strtok_from_def Let_def delim_singleton using assms by (simp only: if_False)
  ultimately show ?thesis by blast
qed

text \<open>
  One call of \<open>strtok\<close> either finds no token, and then the string has none, or returns
  the first token of the string and leaves the others for the next calls.
\<close>

lemma strtok_from_cases:
  "(strtok_from [d] s = (None, []) \<and> tokens d s = []) \<or>
   (\<exists>t r. strtok_from [d] s = (Some t, r) \<and> tokens d s = t # tokens d r)"
  using strtok_from_end[of d s] strtok_from_token[of d s] by blast

section \<open>parse_args\<close>

lemma parse_args_loop_Null:
  "i < length args \<Longrightarrow> args ! i = Null \<Longrightarrow> parse_args_loop i args saved = Inr (args, saved)"
  by (subst parse_args_loop.simps) (simp add: load_def)

lemma parse_args_loop_full:
  "length args = MAX_ARGS \<Longrightarrow> args ! (MAX_ARGS - 1) = Ptr t \<Longrightarrow>
   parse_args_loop (MAX_ARGS - 1) args saved = Inr (args, saved)"
  by (subst parse_args_loop.simps) (simp add: load_def MAX_ARGS_def)

lemma parse_args_loop_step:
  "length args = MAX_ARGS \<Longrightarrow> i < MAX_ARGS - 1 \<Longrightarrow> args ! i = Ptr t \<Longrightarrow>
   parse_args_loop i args saved =
     parse_args_loop (Suc i) (args[Suc i := cell_of (fst (strtok_from '' '' saved))])
       (snd (strtok_from '' '' saved))"
  by (subst parse_args_loop.simps) (auto simp: load_def store_def strtok_def split: prod.splits)

lemma parse_args_loop_tokens:
  "length args = MAX_ARGS \<Longrightarrow> i < MAX_ARGS \<Longrightarrow> args ! i = Ptr t \<Longrightarrow>
   ts = tokens CHR '' '' saved \<Longrightarrow>
   \<exists>saved'. parse_args_loop i args saved = Inr (filled (Suc i) args ts, saved')"
proof (induction ts arbitrary: i args saved t)
  case Nil
  then have st: "strtok_from '' '' saved = (None, [])"
    using strtok_from_cases[of "CHR '' ''" saved] by auto
  show ?case
  proof (cases "i < MAX_ARGS - 1")
    case True
    have "parse_args_loop i args saved = parse_args_loop (Suc i) (args[Suc i := Null]) []"
      using parse_args_loop_step[OF Nil(1) True Nil(3)] st by (simp add: cell_of_def)
    also have "\<dots> = Inr (args[Suc i := Null], [])"
      using True Nil(1) by (intro parse_args_loop_Null) auto
    finally show ?thesis using True Nil(1)
      by (simp add: filled_def upd_conv_take_nth_drop)
  next
    case False
    then have i: "i = MAX_ARGS - 1" using Nil(2) by simp
    show ?thesis using parse_args_loop_full[OF Nil(1), of t saved] Nil(1,3) i
      by (simp add: filled_def MAX_ARGS_def)
  qed
next
  case (Cons u us)
  then obtain r where st: "strtok_from '' '' saved = (Some u, r)" and r: "us = tokens CHR '' '' r"
    using strtok_from_cases[of "CHR '' ''" saved] by auto
  show ?case
  proof (cases "i < MAX_ARGS - 1")
    case True
    let ?a = "args[Suc i := Ptr u]"
    have step: "parse_args_loop i args saved = parse_args_loop (Suc i) ?a r"
      using parse_args_loop_step[OF Cons(2) True Cons(4)] st by (simp add: cell_of_def)
    have "\<exists>saved'. parse_args_loop (Suc i) ?a r = Inr (filled (Suc (Suc i)) ?a us, saved')"
      using True Cons(2) by (intro Cons(1)[OF _ _ _ r, of _ _ u]) auto
    moreover have "filled (Suc (Suc i)) ?a us = filled (Suc i) args (u # us)"
    proof -
      have "MAX_ARGS = Suc (Suc i) + (MAX_ARGS - Suc (Suc i))" using True by arith
      then obtain k where k: "MAX_ARGS = Suc (Suc i) + k" ..
      have d: "MAX_ARGS - Suc i = Suc k" "MAX_ARGS - Suc (Suc i) = k" using k by simp_all
      have "take (Suc (Suc i)) ?a = take (Suc i) args @ [Ptr u]"
        using Cons(2) k by (simp add: take_Suc_conv_app_nth[of "Suc i"])
      then show ?thesis using Cons(2) by (simp add: filled_def d)
    qed
    ultimately show ?thesis using step by simp
  next
    case False
    then have i: "i = MAX_ARGS - 1" using Cons(3) by simp
    show ?thesis using parse_args_loop_full[OF Cons(2), of t saved] Cons(2,4) i
      by (simp add: filled_def MAX_ARGS_def)
  qed
qed

lemma parse_args_tokens:
  assumes "length args = MAX_ARGS"
  shows "\<exists>saved'. parse_args (Some line) args saved =
           Inr (filled 0 args (tokens CHR '' '' line), saved')"
proof (cases "tokens CHR '' '' line")
  case Nil
  then have st: "strtok_from '' '' line = (None, [])"
    using strtok_from_cases[of "CHR '' ''" line] by auto
  have "parse_args (Some line) args saved = Inr (args[0 := Null], [])"
    using assms st parse_args_loop_Null[of 0 "args[0 := Null]" "[]"]
    by (simp add: parse_args_def strtok_def store_def cell_of_def MAX_ARGS_def)
  then show ?thesis using Nil assms by (cases args) (auto simp: MAX_ARGS_def filled_def)
next
  case (Cons u us)
  then obtain r where st: "strtok_from '' '' line = (Some u, r)" and r: "us = tokens CHR '' '' r"
    using strtok_from_cases[of "CHR '' ''" line] by auto
  let ?a = "args[0 := Ptr u]"
  have "parse_args (Some line) args saved = parse_args_loop 0 ?a r"
    using assms st by (simp add: parse_args_def strtok_def store_def cell_of_def MAX_ARGS_def)
  moreover have "\<exists>saved'. parse_args_loop 0 ?a r = Inr (filled (Suc 0) ?a us, saved')"
    using assms by (intro parse_args_loop_tokens[OF _ _ _ r, of _ _ u]) (auto simp: MAX_ARGS_def)
  moreover have "filled (Suc 0) ?a us = filled 0 args (u # us)"
    using assms by (cases args) (auto simp: filled_def MAX_ARGS_def)
  ultimately show ?thesis using Cons by simp
qed

section \<open>The loops on token lists\<close>

subsection \<open>handle_redirection on a token list\<close>

text \<open>
  On an array that holds the tokens \<open>ts\<close> and then a null pointer, the loop of
  \<open>handle_redirection\<close> does what \<open>redirect_all\<close> does on \<open>ts\<close>, and leaves \<open>nulled t\<close> in
  the slot of each token \<open>t\<close>.
\<close>

lemma nulled_redir: "is_redir t \<Longrightarrow> nulled t = Null"
  and nulled_plain: "\<not> is_redir t \<Longrightarrow> nulled t = Ptr t"
  by (simp_all add: nulled_def)

lemma load_append_Ptr:
  "load (pre @ Ptr t # post) (length pre) = Inr (Some t)"
  by (simp add: load_def)

lemma load_append_Null:
  "load (pre @ Null # post) (length pre) = Inr None"
  by (simp add: load_def)

lemma load_next:
  "load (pre @ x # map Ptr ts @ Null # rest) (Suc (length pre)) = Inr (next_token ts)"
  by (cases ts) (simp_all add: load_def next_token_def nth_append)

lemma hr_loop_end:
  "handle_redirection_loop os (length pre) (pre @ Null # rest) c = Inr (pre @ Null # rest, c)"
  by (subst handle_redirection_loop.simps) (simp add: load_append_Null)

lemma hr_loop_plain:
  "\<not> is_redir t \<Longrightarrow>
   handle_redirection_loop os (length pre) (pre @ Ptr t # post) c =
   handle_redirection_loop os (Suc (length pre)) (pre @ Ptr t # post) c"
  by (subst handle_redirection_loop.simps) (simp add: load_append_Ptr is_redir_def)

lemma hr_loop_redir:
  "is_redir t \<Longrightarrow>
   handle_redirection_loop os (length pre) (pre @ Ptr t # map Ptr ts @ Null # rest) c =
   handle_redirection_loop os (Suc (length pre)) (pre @ Null # map Ptr ts @ Null # rest)
     (redirect os t (next_token ts) c)"
  apply (subst handle_redirection_loop.simps)
  apply (simp only: load_append_Ptr)
  apply (auto simp: is_redir_def load_next redirect_def flags_for_def mode_for_def stream_of_def
      split: prod.splits)
  done

lemma hr_loop_tokens:
  "handle_redirection_loop os (length pre) (pre @ map Ptr ts @ Null # rest) c =
     Inr (pre @ map nulled ts @ Null # rest, redirect_all os ts c)"
proof (induction ts arbitrary: pre c)
  case Nil
  show ?case by (simp add: hr_loop_end)
next
  case (Cons t ts)
  show ?case
  proof (cases "is_redir t")
    case True
    have "handle_redirection_loop os (length pre) (pre @ map Ptr (t # ts) @ Null # rest) c =
          handle_redirection_loop os (length (pre @ [Null])) ((pre @ [Null]) @ map Ptr ts @ Null # rest)
            (redirect os t (next_token ts) c)"
      using hr_loop_redir[OF True, of os pre ts rest c] by simp
    also have "\<dots> = Inr ((pre @ [Null]) @ map nulled ts @ Null # rest,
                          redirect_all os ts (redirect os t (next_token ts) c))"
      by (rule Cons.IH)
    finally show ?thesis using True by (simp add: nulled_redir)
  next
    case False
    have "handle_redirection_loop os (length pre) (pre @ map Ptr (t # ts) @ Null # rest) c =
          handle_redirection_loop os (length (pre @ [Ptr t])) ((pre @ [Ptr t]) @ map Ptr ts @ Null # rest) c"
      using hr_loop_plain[OF False, of os pre "map Ptr ts @ Null # rest" c] by simp
    also have "\<dots> = Inr ((pre @ [Ptr t]) @ map nulled ts @ Null # rest, redirect_all os ts c)"
      by (rule Cons.IH)
    finally show ?thesis using False by (simp add: nulled_plain)
  qed
qed

lemma handle_redirection_tokens:
  "handle_redirection os (map Ptr ts @ Null # rest) c =
     Inr (map nulled ts @ Null # rest, redirect_all os ts c)"
  using hr_loop_tokens[of os "[]" ts rest c] by (simp add: handle_redirection_def)

lemma read_argv_end: "read_argv (pre @ Null # rest) (length pre) = Inr []"
  by (subst read_argv.simps) (simp add: load_append_Null)

lemma read_argv_Ptr:
  "read_argv (pre @ Ptr t # post) (length pre) =
     (case read_argv (pre @ Ptr t # post) (Suc (length pre)) of Inl f \<Rightarrow> Inl f | Inr as \<Rightarrow> Inr (t # as))"
  by (subst read_argv.simps) (simp add: load_append_Ptr)

lemma read_argv_nulled:
  "read_argv (pre @ map nulled ts @ Null # rest) (length pre) =
     Inr (takeWhile (\<lambda>t. \<not> is_redir t) ts)"
proof (induction ts arbitrary: pre)
  case Nil
  show ?case by (simp add: read_argv_end)
next
  case (Cons t ts)
  show ?case
  proof (cases "is_redir t")
    case True
    then show ?thesis using read_argv_end[of pre "map nulled ts @ Null # rest"]
      by (simp add: nulled_redir)
  next
    case False
    have "read_argv ((pre @ [Ptr t]) @ map nulled ts @ Null # rest) (length (pre @ [Ptr t])) =
            Inr (takeWhile (\<lambda>t. \<not> is_redir t) ts)"
      by (rule Cons.IH)
    then show ?thesis using False read_argv_Ptr[of pre t "map nulled ts @ Null # rest"]
      by (simp add: nulled_plain)
  qed
qed

subsection \<open>What a redirection does to the descriptors\<close>



lemma lowest_free_le: "lowest_free t \<le> length t"
  by (simp add: lowest_free_def length_takeWhile_le)











subsection \<open>parse_args when the tokens fit\<close>

lemma strtok_from_Nil: "strtok_from ds [] = (None, [])"
  by (simp add: strtok_from_def)

lemma parse_args_loop_fit:
  "length args = MAX_ARGS \<Longrightarrow> args ! i = Ptr t \<Longrightarrow> ts = tokens CHR '' '' saved \<Longrightarrow>
   Suc i + length ts < MAX_ARGS \<Longrightarrow>
   parse_args_loop i args saved = Inr (filled (Suc i) args ts, [])"
proof (induction ts arbitrary: i args saved t)
  case Nil
  then have st: "strtok_from '' '' saved = (None, [])"
    using strtok_from_cases[of "CHR '' ''" saved] by auto
  have i: "i < MAX_ARGS - 1" using Nil(4) by simp
  have "parse_args_loop i args saved = parse_args_loop (Suc i) (args[Suc i := Null]) []"
    using parse_args_loop_step[OF Nil(1) i Nil(2)] st by (simp add: cell_of_def)
  also have "\<dots> = Inr (args[Suc i := Null], [])"
    using i Nil(1) by (intro parse_args_loop_Null) auto
  finally show ?case using i Nil(1)
    by (simp add: filled_def upd_conv_take_nth_drop)
next
  case (Cons u us)
  then obtain r where st: "strtok_from '' '' saved = (Some u, r)" and r: "us = tokens CHR '' '' r"
    using strtok_from_cases[of "CHR '' ''" saved] by auto
  have i: "i < MAX_ARGS - 1" using Cons(5) by simp
  let ?a = "args[Suc i := Ptr u]"
  have step: "parse_args_loop i args saved = parse_args_loop (Suc i) ?a r"
    using parse_args_loop_step[OF Cons(2) i Cons(3)] st by (simp add: cell_of_def)
  have "parse_args_loop (Suc i) ?a r = Inr (filled (Suc (Suc i)) ?a us, [])"
  proof (rule Cons.IH)
    show "length ?a = MAX_ARGS" using Cons(2) by simp
    show "?a ! Suc i = Ptr u" using Cons(2) i by simp
    show "us = tokens CHR '' '' r" by (rule r)
    show "Suc (Suc i) + length us < MAX_ARGS" using Cons(5) by simp
  qed
  moreover have "filled (Suc (Suc i)) ?a us = filled (Suc i) args (u # us)"
  proof -
    have "take (Suc (Suc i)) ?a = take (Suc i) args @ [Ptr u]"
      using Cons(2) i by (simp add: take_Suc_conv_app_nth[of "Suc i"])
    then show ?thesis using Cons(2,5) by (simp add: filled_def)
  qed
  ultimately show ?case using step by simp
qed

lemma parse_args_fit:
  assumes "length args = MAX_ARGS" "ts = tokens CHR '' '' (strtok_source line saved)"
    "length ts < MAX_ARGS"
  shows "parse_args line args saved = Inr (map Ptr ts @ Null # drop (Suc (length ts)) args, [])"
proof (cases ts)
  case Nil
  then have st: "strtok_from '' '' (strtok_source line saved) = (None, [])"
    using strtok_from_cases[of "CHR '' ''" "strtok_source line saved"] assms(2) by auto
  have "parse_args line args saved = Inr (args[0 := Null], [])"
    using assms(1) st parse_args_loop_Null[of 0 "args[0 := Null]" "[]"]
    by (simp add: parse_args_def strtok_def strtok_source_def store_def cell_of_def MAX_ARGS_def)
  then show ?thesis using Nil assms(1) by (cases args) (auto simp: MAX_ARGS_def)
next
  case (Cons u us)
  then obtain r where st: "strtok_from '' '' (strtok_source line saved) = (Some u, r)"
    and r: "us = tokens CHR '' '' r"
    using strtok_from_cases[of "CHR '' ''" "strtok_source line saved"] assms(2) by auto
  let ?a = "args[0 := Ptr u]"
  have "parse_args line args saved = parse_args_loop 0 ?a r"
    using assms(1) st
    by (simp add: parse_args_def strtok_def strtok_source_def store_def cell_of_def MAX_ARGS_def)
  moreover have "parse_args_loop 0 ?a r = Inr (filled (Suc 0) ?a us, [])"
  proof (rule parse_args_loop_fit)
    show "length ?a = MAX_ARGS" using assms(1) by simp
    show "?a ! 0 = Ptr u" using assms(1) by (simp add: MAX_ARGS_def)
    show "us = tokens CHR '' '' r" by (rule r)
    show "Suc 0 + length us < MAX_ARGS" using assms(3) Cons by simp
  qed
  moreover have "filled (Suc 0) ?a us = map Ptr (u # us) @ Null # drop (Suc (length (u # us))) args"
  proof -
    have "Suc (length us) < MAX_ARGS" using assms(3) Cons by simp
    then show ?thesis using assms(1) by (cases args) (auto simp: filled_def MAX_ARGS_def)
  qed
  ultimately show ?thesis unfolding Cons by simp
qed

lemma parse_args_fresh:
  assumes "ts = tokens CHR '' '' (strtok_source line saved)" "length ts < MAX_ARGS"
  shows "parse_args line (fresh_array MAX_ARGS) saved =
           Inr (map Ptr ts @ Null # replicate (MAX_ARGS - Suc (length ts)) Uninit, [])"
  using parse_args_fit[OF _ assms, of "fresh_array MAX_ARGS"] by (simp add: fresh_array_def)

subsection \<open>execvp after handle_redirection\<close>

lemma load_nulled_0: "load (map nulled ts @ Null # rest) 0 = Inr (first_arg ts)"
  by (cases ts) (auto simp: load_def first_arg_def nulled_def)

lemma execvp_nulled:
  "execvp os (map nulled ts @ Null # rest) c =
     (case first_arg ts of
        None \<Rightarrow> Inl NullPointer
      | Some p \<Rightarrow>
          Inr (c\<lparr>c_trace := c_trace c @
                 exec_events os p (takeWhile (\<lambda>t. \<not> is_redir t) ts)\<rparr>))"
  using read_argv_nulled[of "[]" ts rest]
  by (simp add: execvp_def load_nulled_0 exec_events_def split: option.splits)

lemma redirect_and_exec_tokens:
  "redirect_and_exec os (map Ptr ts @ Null # rest) c = child_run os ts c"
  by (simp add: redirect_and_exec_def handle_redirection_tokens execvp_nulled child_run_def)

subsection \<open>The turn of shell_loop\<close>

lemma expand_loop_plain:
  "CHR ''$'' \<notin> set line \<Longrightarrow> length buffer + length line < MAX_INPUT \<Longrightarrow>
   expand_loop e line buffer = Inr (buffer @ line)"
  by (induction line arbitrary: buffer) auto

lemma expand_variables_plain:
  "CHR ''$'' \<notin> set line \<Longrightarrow> length line < MAX_INPUT \<Longrightarrow> expand_variables e line = Inr line"
  using expand_loop_plain[of line "[]" e] by (simp add: expand_variables_def)

lemma count_args_end: "count_args (pre @ Null # rest) (length pre) = Inr (length pre)"
  by (subst count_args.simps) (simp add: load_append_Null)

lemma count_args_Ptr:
  "count_args (pre @ Ptr t # post) (length pre) = count_args (pre @ Ptr t # post) (Suc (length pre))"
  by (subst count_args.simps) (simp add: load_append_Ptr)

lemma count_args_from:
  "count_args (pre @ map Ptr ts @ Null # rest) (length pre) = Inr (length pre + length ts)"
proof (induction ts arbitrary: pre)
  case Nil
  show ?case by (simp add: count_args_end)
next
  case (Cons t ts)
  have "count_args ((pre @ [Ptr t]) @ map Ptr ts @ Null # rest) (length (pre @ [Ptr t])) =
          Inr (length (pre @ [Ptr t]) + length ts)"
    by (rule Cons.IH)
  then show ?case using count_args_Ptr[of pre t "map Ptr ts @ Null # rest"] by simp
qed

lemma count_args_tokens: "count_args (map Ptr ts @ Null # rest) 0 = Inr (length ts)"
  using count_args_from[of "[]" ts rest] by simp

lemma background_flag_tokens:
  "background_flag (map Ptr ts @ Null # rest) =
     Inr (if background_of ts then (True, map Ptr (butlast ts) @ Null # Null # rest)
          else (False, map Ptr ts @ Null # rest))"
proof (cases ts rule: rev_cases)
  case Nil
  then show ?thesis using count_args_tokens[of "[]" rest]
    by (simp add: background_flag_def background_of_def)
next
  case (snoc us u)
  have l: "load (map Ptr ts @ Null # rest) (length ts - 1) = Inr (Some u)"
    using snoc load_append_Ptr[of "map Ptr us" u "Null # rest"] by simp
  have upd: "(map Ptr ts @ Null # rest)[length ts - 1 := Null] = map Ptr us @ Null # Null # rest"
    using snoc by (simp add: list_update_append)
  have pos: "0 < length ts" using snoc by simp
  have bg: "background_of ts = (u = ''&'')" "butlast ts = us"
    using snoc by (simp_all add: background_of_def)
  show ?thesis
    unfolding background_flag_def count_args_tokens bg
    apply (simp only: pos l upd if_True sum.case option.inject)
    apply (cases "u = ''&''")
     apply simp_all
    done
qed

lemma load_tokens_1:
  "load (Ptr t # map Ptr ts @ Null # rest) 1 = Inr (next_token ts)"
  using load_next[of "[]" "Ptr t" ts rest] by simp

lemma handle_builtin_plain:
  "\<not> builtin_name t \<Longrightarrow> handle_builtin os (Ptr t # rest) sh = Inr (False, sh)"
  by (simp add: handle_builtin_def load_def builtin_name_def)

lemma handle_builtin_empty: "handle_builtin os (Null # rest) sh = Inr (True, sh)"
  by (simp add: handle_builtin_def load_def)

lemma builtin_cd_quiet:
  "load args 1 = Inr a \<Longrightarrow>
   \<exists>sh1. builtin_cd os args sh = Inr (True, sh1) \<and>
     filter is_wait (events sh1) = filter is_wait (events sh)"
  by (cases a) (simp_all add: builtin_cd_def is_wait_def)

lemma builtin_export_quiet:
  "load args 1 = Inr a \<Longrightarrow>
   \<exists>sh1. builtin_export args sh = Inr (True, sh1) \<and>
     filter is_wait (events sh1) = filter is_wait (events sh)"
proof (cases a)
  case None
  assume "load args 1 = Inr a"
  then show ?thesis using None by (simp add: builtin_export_def)
next
  case (Some v)
  assume l: "load args 1 = Inr a"
  obtain key s1 where k: "strtok (Some v) ''='' (strtok_saved sh) = (key, s1)" by force
  obtain val s2 where v: "strtok None ''='' s1 = (val, s2)" by force
  show ?thesis using l Some k v
    by (cases key; cases val) (simp_all add: builtin_export_def)
qed

lemma handle_builtin_quiet:
  "\<exists>handled sh1. handle_builtin os (map Ptr ts @ Null # rest) sh = Inr (handled, sh1) \<and>
     filter is_wait (events sh1) = filter is_wait (events sh)"
proof (cases ts)
  case Nil
  then show ?thesis by (auto simp: handle_builtin_empty)
next
  case (Cons t us)
  have l0: "load (map Ptr ts @ Null # rest) 0 = Inr (Some t)"
    using Cons by (simp add: load_def)
  have l1: "load (map Ptr ts @ Null # rest) 1 = Inr (next_token us)"
    using Cons load_tokens_1[of t us rest] by simp
  consider "t = ''exit''" | "t \<noteq> ''exit''" "t = ''cd''" | "t \<noteq> ''exit''" "t \<noteq> ''cd''" "t = ''history''"
    | "t \<noteq> ''exit''" "t \<noteq> ''cd''" "t \<noteq> ''history''" "t = ''export''"
    | "t \<noteq> ''exit''" "t \<noteq> ''cd''" "t \<noteq> ''history''" "t \<noteq> ''export''"
    by blast
  then show ?thesis
  proof cases
    case 1
    then show ?thesis unfolding handle_builtin_def l0 by (auto simp: is_wait_def)
  next
    case 2
    then show ?thesis unfolding handle_builtin_def l0
      using builtin_cd_quiet[OF l1, of os sh] by auto
  next
    case 3
    then show ?thesis unfolding handle_builtin_def l0 by (auto simp: is_wait_def show_history_def)
  next
    case 4
    then show ?thesis unfolding handle_builtin_def l0
      using builtin_export_quiet[OF l1, of sh] by auto
  next
    case 5
    then show ?thesis unfolding handle_builtin_def l0 by auto
  qed
qed

lemma run_command_tokens:
  assumes "ts = tokens CHR '' '' line" "length ts < MAX_ARGS"
  shows "run_command os line sh =
     (case handle_builtin os (command_array ts) (sh\<lparr>strtok_saved := []\<rparr>) of
        Inl f \<Rightarrow> Inl f
      | Inr (handled, sh1) \<Rightarrow>
          if handled then Inr sh1
          else if background_of ts
          then Inr (sys_fork (\<lambda>t. redirect_and_exec os (command_array ts) \<lparr>c_fds = t, c_trace = []\<rparr>) sh1)
          else Inr (sys_waitpid (next_pid sh1)
                 (sys_fork (\<lambda>t. redirect_and_exec os (command_array ts) \<lparr>c_fds = t, c_trace = []\<rparr>) sh1)))"
proof -
  let ?R = "replicate (MAX_ARGS - Suc (length ts)) Uninit"
  have p: "parse_args (Some line) (fresh_array MAX_ARGS) (strtok_saved sh) =
      Inr (map Ptr ts @ Null # ?R, [])"
    using assms by (intro parse_args_fresh) (simp_all add: strtok_source_def)
  have b: "background_flag (map Ptr ts @ Null # ?R) = Inr (background_of ts, command_array ts)"
    by (simp add: background_flag_tokens command_array_def)
  show ?thesis
  proof (cases "handle_builtin os (command_array ts) (sh\<lparr>strtok_saved := []\<rparr>)")
    case (Inl f)
    then show ?thesis by (simp add: run_command_def p b)
  next
    case (Inr r)
    then show ?thesis by (cases r) (simp add: run_command_def p b Let_def)
  qed
qed

lemma add_history_frame:
  "events (add_history l sh) = events sh" "fds (add_history l sh) = fds sh"
  "next_pid (add_history l sh) = next_pid sh" "env (add_history l sh) = env sh"
  "next_pipe (add_history l sh) = next_pipe sh"
  by (simp_all add: add_history_def)

lemma shell_iteration_command:
  assumes "expand_variables (env sh) (trim_newline buf) = Inr line" "trim_newline buf \<noteq> []"
    "CHR ''|'' \<notin> set line"
  shows "shell_iteration os buf sh = run_command os line (add_history (trim_newline buf) sh)"
  using assms by (simp add: shell_iteration_def Let_def add_history_frame)

lemma shell_iteration_pipeline:
  assumes "expand_variables (env sh) (trim_newline buf) = Inr line" "trim_newline buf \<noteq> []"
    "CHR ''|'' \<in> set line"
  shows "shell_iteration os buf sh = execute_pipeline os line (add_history (trim_newline buf) sh)"
  using assms by (simp add: shell_iteration_def Let_def add_history_frame)

lemma command_array_background:
  "command_array (ts @ [''&'']) =
     map Ptr ts @ Null # Null # replicate (MAX_ARGS - (length ts + 2)) Uninit"
  by (simp add: command_array_def background_of_def)

subsection \<open>The commands of a pipeline\<close>

lemma split_commands_loop_fit:
  "length commands = 10 \<Longrightarrow> cs = tokens CHR ''|'' saved \<Longrightarrow> n + length cs < 10 \<Longrightarrow>
   split_commands_loop n commands saved =
     Inr (Suc (n + length cs),
          take n commands @ map Ptr cs @ Null # drop (Suc (n + length cs)) commands, [])"
proof (induction cs arbitrary: n commands saved)
  case Nil
  then have st: "strtok_from ''|'' saved = (None, [])"
    using strtok_from_cases[of "CHR ''|''" saved] by auto
  show ?case using Nil(1,3) st
    by (subst split_commands_loop.simps)
       (simp add: strtok_def store_def cell_of_def upd_conv_take_nth_drop)
next
  case (Cons c cs)
  then obtain r where st: "strtok_from ''|'' saved = (Some c, r)" and r: "cs = tokens CHR ''|'' r"
    using strtok_from_cases[of "CHR ''|''" saved] by auto
  let ?a = "commands[n := Ptr c]"
  have n: "n < 10" using Cons(4) by simp
  have step: "split_commands_loop n commands saved = split_commands_loop (Suc n) ?a r"
    using Cons(2) n st
    by (subst split_commands_loop.simps) (simp add: strtok_def store_def cell_of_def)
  have "split_commands_loop (Suc n) ?a r =
     Inr (Suc (Suc n + length cs),
          take (Suc n) ?a @ map Ptr cs @ Null # drop (Suc (Suc n + length cs)) ?a, [])"
  proof (rule Cons.IH)
    show "length ?a = 10" using Cons(2) by simp
    show "cs = tokens CHR ''|'' r" by (rule r)
    show "Suc n + length cs < 10" using Cons(4) by simp
  qed
  moreover have "take (Suc n) ?a = take n commands @ [Ptr c]"
    using Cons(2) n by (simp add: take_Suc_conv_app_nth)
  ultimately show ?case using step by simp
qed

lemma split_commands_loop_overflow:
  "length commands = 10 \<Longrightarrow> cs = tokens CHR ''|'' saved \<Longrightarrow> 10 \<le> n + length cs \<Longrightarrow>
   split_commands_loop n commands saved = Inl OutOfBounds"
proof (induction cs arbitrary: n commands saved)
  case Nil
  then show ?case
    by (subst split_commands_loop.simps) (simp add: store_def split: prod.splits)
next
  case (Cons c cs)
  then obtain r where st: "strtok_from ''|'' saved = (Some c, r)" and r: "cs = tokens CHR ''|'' r"
    using strtok_from_cases[of "CHR ''|''" saved] by auto
  show ?case
  proof (cases "n < 10")
    case True
    let ?a = "commands[n := Ptr c]"
    have step: "split_commands_loop n commands saved = split_commands_loop (Suc n) ?a r"
      using Cons(2) True st
      by (subst split_commands_loop.simps) (simp add: strtok_def store_def cell_of_def)
    have "split_commands_loop (Suc n) ?a r = Inl OutOfBounds"
    proof (rule Cons.IH)
      show "length ?a = 10" using Cons(2) by simp
      show "cs = tokens CHR ''|'' r" by (rule r)
      show "10 \<le> Suc n + length cs" using Cons(4) by simp
    qed
    then show ?thesis using step by simp
  next
    case False
    then show ?thesis using Cons(2)
      by (subst split_commands_loop.simps) (simp add: store_def split: prod.splits)
  qed
qed

lemma split_commands_stages:
  assumes "cs = tokens CHR ''|'' line" "cs \<noteq> []"
  shows "split_commands line saved =
     (if length cs < 10
      then Inr (Suc (length cs), map Ptr cs @ Null # replicate (9 - length cs) Uninit, [])
      else Inl OutOfBounds)"
proof -
  obtain c cs' where cs: "cs = c # cs'" using assms(2) by (cases cs) auto
  then obtain r where st: "strtok_from ''|'' line = (Some c, r)" and r: "cs' = tokens CHR ''|'' r"
    using strtok_from_cases[of "CHR ''|''" line] assms(1) by auto
  let ?a = "(fresh_array 10)[0 := Ptr c]"
  have a: "?a = Ptr c # replicate 9 Uninit" by (simp add: fresh_array_def numeral_eq_Suc)
  have s: "split_commands line saved = split_commands_loop 1 ?a r"
    using st by (simp add: split_commands_def strtok_def store_def cell_of_def fresh_array_def)
  show ?thesis
  proof (cases "length cs < 10")
    case True
    have "split_commands_loop 1 ?a r =
       Inr (Suc (1 + length cs'), take 1 ?a @ map Ptr cs' @ Null # drop (Suc (1 + length cs')) ?a, [])"
      using True cs by (intro split_commands_loop_fit r) (simp_all add: fresh_array_def)
    then show ?thesis using True s cs unfolding a by simp
  next
    case False
    have "split_commands_loop 1 ?a r = Inl OutOfBounds"
      using False cs by (intro split_commands_loop_overflow[OF _ r]) (simp_all add: fresh_array_def)
    then show ?thesis using False s by simp
  qed
qed

subsection \<open>The loop of execute_pipeline\<close>

lemma pipeline_loop_step:
  "i < num_cmds - 1 \<Longrightarrow>
   pipeline_loop os commands num_cmds saved i in_fd sh =
     pipeline_loop os commands num_cmds saved (Suc i) (int (fst (fst (sys_pipe sh))))
       (one_turn os commands saved i in_fd sh)"
  by (subst pipeline_loop.simps) (simp add: one_turn_def split: prod.splits)

lemma pipeline_loop_done:
  "\<not> i < num_cmds - 1 \<Longrightarrow> pipeline_loop os commands num_cmds saved i in_fd sh = (in_fd, sh)"
  by (subst pipeline_loop.simps) simp

lemma one_turn_kinds:
  "map kind_of (events (one_turn os commands saved i in_fd sh)) =
     map kind_of (events sh) @ [KPipe, KFork, KWait, KClose]"
  by (simp add: one_turn_def parent_close_def sys_wait_def sys_fork_def sys_pipe_def Let_def kind_of_def)

lemma pipeline_loop_kinds:
  "map kind_of (events (snd (pipeline_loop os commands num_cmds saved i in_fd sh))) =
     map kind_of (events sh) @ concat (replicate (num_cmds - 1 - i) [KPipe, KFork, KWait, KClose])"
proof (induction "num_cmds - 1 - i" arbitrary: i in_fd sh)
  case 0
  then have "\<not> i < num_cmds - 1" by simp
  then show ?case using 0 by (simp add: pipeline_loop_done)
next
  case (Suc k)
  then have lt: "i < num_cmds - 1" and k: "k = num_cmds - 1 - Suc i" by simp_all
  have "num_cmds - 1 - i = Suc (num_cmds - 1 - Suc i)" using lt by simp
  then show ?case
    using Suc(1)[OF k, of "int (fst (fst (sys_pipe sh)))" "one_turn os commands saved i in_fd sh"]
    by (simp add: pipeline_loop_step[OF lt] one_turn_kinds)
qed

subsection \<open>Open descriptors\<close>

text \<open>
  A turn of the loop opens the two ends of a pipe and closes the write end: the read end
  is one more open descriptor.
\<close>

lemma open_fds_opens: "set (open_fds t) = opens t" "distinct (open_fds t)"
  by (auto simp: open_fds_def opens_def)

lemma length_open_fds: "length (open_fds t) = card (opens t)"
  using open_fds_opens[of t] by (metis distinct_card)

lemma finite_opens: "finite (opens t)"
  by (simp add: opens_def)

lemma lowest_free_not_open: "lowest_free t \<notin> opens t"
proof
  assume a: "lowest_free t \<in> opens t"
  then have "length (takeWhile (\<lambda>x. x \<noteq> None) t) < length t"
    by (simp add: opens_def lowest_free_def)
  from nth_length_takeWhile[OF this] a show False by (simp add: opens_def lowest_free_def)
qed

lemma opens_fd_set: "n \<le> length t \<Longrightarrow> opens (fd_set t n (Some x)) = insert n (opens t)"
  by (auto simp: opens_def fd_set_def nth_append nth_list_update split: if_splits)

lemma opens_fd_set_lowest: "opens (fd_set t (lowest_free t) (Some x)) = insert (lowest_free t) (opens t)"
  by (rule opens_fd_set) (rule lowest_free_le)

lemma opens_close: "opens (fd_close t (int n)) = opens t - {n}"
  by (auto simp: opens_def fd_close_def fd_is_open_def nth_list_update)

lemma one_turn_opens:
  "opens (fds (one_turn os commands saved i in_fd sh)) =
     insert (lowest_free (fds sh)) (opens (fds sh))"
proof -
  let ?t1 = "fd_set (fds sh) (lowest_free (fds sh)) (Some (PipeRead (next_pipe sh)))"
  have "lowest_free ?t1 \<notin> opens ?t1" by (rule lowest_free_not_open)
  then show ?thesis
    by (simp add: one_turn_def parent_close_def sys_wait_def sys_fork_def sys_pipe_def Let_def
        opens_close opens_fd_set_lowest)
qed

lemma one_turn_leaks:
  "length (open_fds (fds (one_turn os commands saved i in_fd sh))) =
     Suc (length (open_fds (fds sh)))"
  using lowest_free_not_open[of "fds sh"] finite_opens[of "fds sh"]
  by (simp add: length_open_fds one_turn_opens)

lemma pipeline_loop_leaks:
  "length (open_fds (fds (snd (pipeline_loop os commands num_cmds saved i in_fd sh)))) =
     length (open_fds (fds sh)) + (num_cmds - 1 - i)"
proof (induction "num_cmds - 1 - i" arbitrary: i in_fd sh)
  case 0
  then have "\<not> i < num_cmds - 1" by simp
  then show ?case using 0 by (simp add: pipeline_loop_done)
next
  case (Suc k)
  then have lt: "i < num_cmds - 1" and k: "k = num_cmds - 1 - Suc i" by simp_all
  have "num_cmds - 1 - i = Suc (num_cmds - 1 - Suc i)" using lt by simp
  then show ?case
    using Suc(1)[OF k, of "int (fst (fst (sys_pipe sh)))" "one_turn os commands saved i in_fd sh"]
    by (simp add: pipeline_loop_step[OF lt] one_turn_leaks)
qed

subsection \<open>What the children execute\<close>

lemma exec_argvs_append: "exec_argvs (xs @ ys) = exec_argvs xs @ exec_argvs ys"
  by (induction xs rule: exec_argvs.induct) auto

lemma fork_argvs_append: "fork_argvs (xs @ ys) = fork_argvs xs @ fork_argvs ys"
  by (induction xs rule: fork_argvs.induct) auto

lemma exec_argvs_redirect:
  "exec_argvs (c_trace (redirect os op path c)) = exec_argvs (c_trace c)"
  by (auto simp: redirect_def sys_open_def sys_close_def sys_dup2_def perror_def Let_def
      exec_argvs_append split: option.splits)

lemma exec_argvs_redirect_all:
  "exec_argvs (c_trace (redirect_all os ts c)) = exec_argvs (c_trace c)"
  by (induction ts arbitrary: c) (simp_all add: exec_argvs_redirect)

lemma exec_argvs_exec_events: "exec_argvs (exec_events os p argv) = [argv]"
  by (simp add: exec_events_def)

lemma fork_results_append: "fork_results (xs @ ys) = fork_results xs @ fork_results ys"
  by (induction xs rule: fork_results.induct) auto

lemma fork_argvs_results:
  "fork_argvs es = concat (map (\<lambda>r. case r of Inl f \<Rightarrow> [] | Inr as \<Rightarrow> as) (fork_results es))"
  by (induction es rule: fork_argvs.induct) (auto simp: run_argvs_def split: sum.splits)

lemma redirect_and_exec_argv:
  "run_argvs (redirect_and_exec os (map Ptr ts @ Null # rest) c) =
     (case first_arg ts of
        None \<Rightarrow> Inl NullPointer
      | Some p \<Rightarrow> Inr (exec_argvs (c_trace c) @ [takeWhile (\<lambda>t. \<not> is_redir t) ts]))"
  by (simp add: redirect_and_exec_tokens child_run_def run_argvs_def exec_argvs_append
      exec_argvs_redirect_all exec_argvs_exec_events split: option.splits)

lemma last_child_argv:
  "run_argvs (last_child os in_fd (map Ptr ts @ Null # rest) t) =
     (case first_arg ts of
        None \<Rightarrow> Inl NullPointer
      | Some p \<Rightarrow> Inr [takeWhile (\<lambda>t. \<not> is_redir t) ts])"
  using redirect_and_exec_argv[of os ts rest "sys_dup2 in_fd 0 \<lparr>c_fds = t, c_trace = []\<rparr>"]
  by (simp add: last_child_def sys_dup2_def split: option.splits)

lemma stage_child_argv:
  assumes "load commands i = Inr (Some cmd)" "length (tokens CHR '' '' cmd) < MAX_ARGS"
  shows "run_argvs (stage_child os in_fd pipefd commands i saved t) = exec_of cmd"
proof -
  let ?ts = "tokens CHR '' '' cmd"
  have p: "parse_args (Some cmd) (fresh_array MAX_ARGS) saved =
      Inr (map Ptr ?ts @ Null # replicate (MAX_ARGS - Suc (length ?ts)) Uninit, [])"
    using assms(2) by (intro parse_args_fresh) (simp_all add: strtok_source_def)
  show ?thesis
    using redirect_and_exec_argv[of os ?ts "replicate (MAX_ARGS - Suc (length ?ts)) Uninit"
        "sys_close (int (fst pipefd)) (sys_dup2 (int (snd pipefd)) 1
           (sys_dup2 in_fd 0 \<lparr>c_fds = t, c_trace = []\<rparr>))"]
    by (simp add: stage_child_def assms(1) p Let_def sys_dup2_def sys_close_def argv_of_def
        exec_of_def split: option.splits)
qed

lemma load_stage:
  "i < length cs \<Longrightarrow> load (map Ptr cs @ Null # rest) i = Inr (Some (cs ! i))"
  by (simp add: load_def nth_append)

lemma one_turn_argv:
  assumes "i < length cs" "length (tokens CHR '' '' (cs ! i)) < MAX_ARGS"
  shows "fork_results (events (one_turn os (map Ptr cs @ Null # rest) saved i in_fd sh)) =
           fork_results (events sh) @ [exec_of (cs ! i)]"
proof -
  have "run_argvs (stage_child os in_fd (fst (sys_pipe sh)) (map Ptr cs @ Null # rest) i saved
        (fds (snd (sys_pipe sh)))) = exec_of (cs ! i)"
    using stage_child_argv[OF load_stage[OF assms(1)] assms(2)] by blast
  then show ?thesis
    by (simp add: one_turn_def parent_close_def sys_wait_def sys_fork_def fork_results_append)
       (simp add: sys_pipe_def Let_def fork_results_append)
qed

lemma pipeline_loop_argvs:
  assumes "list_all (\<lambda>cmd. length (tokens CHR '' '' cmd) < MAX_ARGS) cs"
  shows "i \<le> length cs \<Longrightarrow>
     fork_results (events (snd (pipeline_loop os (map Ptr cs @ Null # rest) (Suc (length cs)) saved
                                i in_fd sh))) =
     fork_results (events sh) @ map exec_of (drop i cs)"
proof (induction "length cs - i" arbitrary: i in_fd sh)
  case 0
  then have "\<not> i < Suc (length cs) - 1" "drop i cs = []" by simp_all
  then show ?case by (simp add: pipeline_loop_done)
next
  case (Suc k)
  then have lt: "i < Suc (length cs) - 1" and k: "k = length cs - Suc i" and i: "i < length cs"
    by simp_all
  have small: "length (tokens CHR '' '' (cs ! i)) < MAX_ARGS"
    using assms i by (simp add: list_all_length)
  have d: "drop i cs = cs ! i # drop (Suc i) cs" using i by (simp add: Cons_nth_drop_Suc)
  show ?case
    using Suc(1)[OF k, of "int (fst (fst (sys_pipe sh)))"
        "one_turn os (map Ptr cs @ Null # rest) saved i in_fd sh"] i
    by (simp add: pipeline_loop_step[OF lt] one_turn_argv[OF i small] d)
qed

subsection \<open>execute_pipeline as a whole\<close>

lemma execute_pipeline_stages:
  assumes "cs = tokens CHR ''|'' line" "cs \<noteq> []" "length cs < 10"
  shows "\<exists>saved'. execute_pipeline os line sh =
     Inr (sys_wait
           (sys_fork
              (last_child os (fst (after_loop os cs sh))
                 (filled 0 (fresh_array MAX_ARGS) (tokens CHR '' '' (last cs))))
              ((snd (after_loop os cs sh))\<lparr>strtok_saved := saved'\<rparr>)))"
proof -
  let ?commands = "map Ptr cs @ Null # replicate (9 - length cs) Uninit"
  have s: "split_commands line (strtok_saved sh) = Inr (Suc (length cs), ?commands, [])"
    using split_commands_stages[OF assms(1,2)] assms(3) by simp
  have "cs = butlast cs @ [last cs]" using assms(2) by simp
  then have "?commands = map Ptr (butlast cs) @ Ptr (last cs) # Null # replicate (9 - length cs) Uninit"
    by (metis (no_types, lifting) append_Cons append_Nil append_assoc list.simps(8,9) map_append)
  then have "load ?commands (length (map Ptr (butlast cs))) = Inr (Some (last cs))"
    by (simp only: load_append_Ptr)
  then have l: "load ?commands (length cs - Suc 0) = Inr (Some (last cs))"
    by simp
  obtain saved' where p: "parse_args (Some (last cs)) (fresh_array MAX_ARGS) [] =
      Inr (filled 0 (fresh_array MAX_ARGS) (tokens CHR '' '' (last cs)), saved')"
    using parse_args_tokens[of "fresh_array MAX_ARGS" "last cs" "[]"] by (auto simp: fresh_array_def)
  have "execute_pipeline os line sh =
     Inr (sys_wait
           (sys_fork
              (last_child os (fst (after_loop os cs sh))
                 (filled 0 (fresh_array MAX_ARGS) (tokens CHR '' '' (last cs))))
              ((snd (after_loop os cs sh))\<lparr>strtok_saved := saved'\<rparr>)))"
    unfolding execute_pipeline_def s
    by (simp add: l p after_loop_def split: prod.splits)
  then show ?thesis by blast
qed

lemma execute_pipeline_kinds:
  assumes "cs = tokens CHR ''|'' line" "cs \<noteq> []" "length cs < 10"
  shows "\<exists>sh'. execute_pipeline os line sh = Inr sh' \<and>
           map kind_of (events sh') =
             map kind_of (events sh) @
             concat (replicate (length cs) [KPipe, KFork, KWait, KClose]) @ [KFork, KWait]"
proof -
  obtain saved' where "execute_pipeline os line sh =
     Inr (sys_wait
           (sys_fork
              (last_child os (fst (after_loop os cs sh))
                 (filled 0 (fresh_array MAX_ARGS) (tokens CHR '' '' (last cs))))
              ((snd (after_loop os cs sh))\<lparr>strtok_saved := saved'\<rparr>)))"
    using execute_pipeline_stages[OF assms] by blast
  then show ?thesis
    using pipeline_loop_kinds[of os "map Ptr cs @ Null # replicate (9 - length cs) Uninit"
        "Suc (length cs)" "[]" 0 0 sh]
    by (simp add: sys_wait_def sys_fork_def after_loop_def kind_of_def)
qed

lemma execute_pipeline_leaks:
  assumes "cs = tokens CHR ''|'' line" "cs \<noteq> []" "length cs < 10"
  shows "\<exists>sh'. execute_pipeline os line sh = Inr sh' \<and>
           length (open_fds (fds sh')) = length (open_fds (fds sh)) + length cs"
proof -
  obtain saved' where "execute_pipeline os line sh =
     Inr (sys_wait
           (sys_fork
              (last_child os (fst (after_loop os cs sh))
                 (filled 0 (fresh_array MAX_ARGS) (tokens CHR '' '' (last cs))))
              ((snd (after_loop os cs sh))\<lparr>strtok_saved := saved'\<rparr>)))"
    using execute_pipeline_stages[OF assms] by blast
  then show ?thesis
    using pipeline_loop_leaks[of os "map Ptr cs @ Null # replicate (9 - length cs) Uninit"
        "Suc (length cs)" "[]" 0 0 sh]
    by (simp add: sys_wait_def sys_fork_def after_loop_def)
qed

lemma execute_pipeline_argvs:
  assumes "cs = tokens CHR ''|'' line" "cs \<noteq> []" "length cs < 10"
    "list_all (\<lambda>cmd. length (tokens CHR '' '' cmd) < MAX_ARGS) cs"
  shows "\<exists>sh'. execute_pipeline os line sh = Inr sh' \<and>
           fork_results (events sh') =
             fork_results (events sh) @ map exec_of cs @ [exec_of (last cs)]"
proof -
  let ?ts = "tokens CHR '' '' (last cs)"
  obtain saved' where e: "execute_pipeline os line sh =
     Inr (sys_wait
           (sys_fork
              (last_child os (fst (after_loop os cs sh))
                 (filled 0 (fresh_array MAX_ARGS) ?ts))
              ((snd (after_loop os cs sh))\<lparr>strtok_saved := saved'\<rparr>)))"
    using execute_pipeline_stages[OF assms(1-3)] by blast
  have "last cs \<in> set cs" using assms(2) by simp
  then have small: "length ?ts < MAX_ARGS" using assms(4) by (simp add: list_all_iff)
  then have f: "filled 0 (fresh_array MAX_ARGS) ?ts =
      map Ptr ?ts @ Null # replicate (MAX_ARGS - Suc (length ?ts)) Uninit"
    by (simp add: filled_def fresh_array_def)
  have c: "run_argvs (last_child os (fst (after_loop os cs sh))
        (filled 0 (fresh_array MAX_ARGS) ?ts) (fds (snd (after_loop os cs sh)))) =
      exec_of (last cs)"
    unfolding f exec_of_def argv_of_def by (rule last_child_argv)
  show ?thesis
    using e c pipeline_loop_argvs[OF assms(4), of 0 os "replicate (9 - length cs) Uninit" "[]" 0 sh]
    by (simp add: sys_wait_def sys_fork_def after_loop_def fork_results_append)
qed

subsection \<open>The pipeline as turns on token lists\<close>

lemma stage_child_tokens:
  assumes "i < length cs" "length (tokens CHR '' '' (cs ! i)) < MAX_ARGS"
  shows "stage_child os in_fd pipefd (map Ptr cs @ Null # rest) i saved t =
     child_run os (tokens CHR '' '' (cs ! i))
       (sys_close (int (fst pipefd))
          (sys_dup2 (int (snd pipefd)) 1 (sys_dup2 in_fd 0 \<lparr>c_fds = t, c_trace = []\<rparr>)))"
proof -
  let ?ts = "tokens CHR '' '' (cs ! i)"
  have p: "parse_args (Some (cs ! i)) (fresh_array MAX_ARGS) saved =
      Inr (map Ptr ?ts @ Null # replicate (MAX_ARGS - Suc (length ?ts)) Uninit, [])"
    using assms(2) by (intro parse_args_fresh) (simp_all add: strtok_source_def)
  show ?thesis
    by (simp add: stage_child_def load_stage[OF assms(1)] p Let_def redirect_and_exec_tokens)
qed

lemma stage_child_fun:
  assumes "i < length cs" "length (tokens CHR '' '' (cs ! i)) < MAX_ARGS"
  shows "stage_child os in_fd pipefd (map Ptr cs @ Null # rest) i saved =
     (\<lambda>t. child_run os (tokens CHR '' '' (cs ! i))
       (sys_close (int (fst pipefd))
          (sys_dup2 (int (snd pipefd)) 1 (sys_dup2 in_fd 0 \<lparr>c_fds = t, c_trace = []\<rparr>))))"
  by (rule ext) (rule stage_child_tokens[OF assms])

lemma last_child_fun:
  "last_child os in_fd (map Ptr ts @ Null # rest) =
     (\<lambda>t. child_run os ts (sys_dup2 in_fd 0 \<lparr>c_fds = t, c_trace = []\<rparr>))"
  by (rule ext) (simp add: last_child_def redirect_and_exec_tokens)

lemma one_turn_tokens:
  assumes "i < length cs" "length (tokens CHR '' '' (cs ! i)) < MAX_ARGS"
  shows "one_turn os (map Ptr cs @ Null # rest) saved i in_fd sh =
           turn os (tokens CHR '' '' (cs ! i)) in_fd sh"
  by (simp add: one_turn_def turn_def stage_child_fun[OF assms] split: prod.splits)

lemma pipeline_loop_turns:
  assumes "list_all (\<lambda>cmd. length (tokens CHR '' '' cmd) < MAX_ARGS) cs"
  shows "i \<le> length cs \<Longrightarrow>
     pipeline_loop os (map Ptr cs @ Null # rest) (Suc (length cs)) saved i in_fd sh =
     turns os (map (tokens CHR '' '') (drop i cs)) in_fd sh"
proof (induction "length cs - i" arbitrary: i in_fd sh)
  case 0
  then have "\<not> i < Suc (length cs) - 1" "drop i cs = []" by simp_all
  then show ?case by (simp add: pipeline_loop_done)
next
  case (Suc k)
  then have lt: "i < Suc (length cs) - 1" and k: "k = length cs - Suc i" and i: "i < length cs"
    by simp_all
  have small: "length (tokens CHR '' '' (cs ! i)) < MAX_ARGS"
    using assms i by (simp add: list_all_length)
  have d: "drop i cs = cs ! i # drop (Suc i) cs" using i by (simp add: Cons_nth_drop_Suc)
  show ?case
    using Suc(1)[OF k, of "int (fst (fst (sys_pipe sh)))"
        "one_turn os (map Ptr cs @ Null # rest) saved i in_fd sh"] i
    by (simp add: pipeline_loop_step[OF lt] one_turn_tokens[OF i small] d)
qed

lemma execute_pipeline_turns:
  assumes "cs = tokens CHR ''|'' line" "cs \<noteq> []" "length cs < 10"
    "list_all (\<lambda>cmd. length (tokens CHR '' '' cmd) < MAX_ARGS) cs"
  shows "execute_pipeline os line sh =
     Inr (sys_wait
           (sys_fork
              (\<lambda>t. child_run os (tokens CHR '' '' (last cs))
                      (sys_dup2 (fst (turns os (map (tokens CHR '' '') cs) 0 sh)) 0
                         \<lparr>c_fds = t, c_trace = []\<rparr>))
              ((snd (turns os (map (tokens CHR '' '') cs) 0 sh))\<lparr>strtok_saved := []\<rparr>)))"
proof -
  let ?commands = "map Ptr cs @ Null # replicate (9 - length cs) Uninit"
  let ?ts = "tokens CHR '' '' (last cs)"
  have s: "split_commands line (strtok_saved sh) = Inr (Suc (length cs), ?commands, [])"
    using split_commands_stages[OF assms(1,2)] assms(3) by simp
  have "cs = butlast cs @ [last cs]" using assms(2) by simp
  then have "?commands = map Ptr (butlast cs) @ Ptr (last cs) # Null # replicate (9 - length cs) Uninit"
    by (metis (no_types, lifting) append_Cons append_Nil append_assoc list.simps(8,9) map_append)
  then have "load ?commands (length (map Ptr (butlast cs))) = Inr (Some (last cs))"
    by (simp only: load_append_Ptr)
  then have l: "load ?commands (length cs - Suc 0) = Inr (Some (last cs))"
    by simp
  have "last cs \<in> set cs" using assms(2) by simp
  then have small: "length ?ts < MAX_ARGS" using assms(4) by (simp add: list_all_iff)
  have p: "parse_args (Some (last cs)) (fresh_array MAX_ARGS) [] =
      Inr (map Ptr ?ts @ Null # replicate (MAX_ARGS - Suc (length ?ts)) Uninit, [])"
    using small by (intro parse_args_fresh) (simp_all add: strtok_source_def)
  have t: "pipeline_loop os ?commands (Suc (length cs)) [] 0 0 sh =
      turns os (map (tokens CHR '' '') cs) 0 sh"
    using pipeline_loop_turns[OF assms(4), of 0 os "replicate (9 - length cs) Uninit" "[]" 0 sh]
    by simp
  show ?thesis
    unfolding execute_pipeline_def s
    by (simp add: l p t last_child_fun split: prod.splits)
qed

section \<open>Commands that are not built in\<close>

lemma run_command_external:
  assumes "tokens CHR '' '' line = t # us" "length (t # us) < MAX_ARGS" "\<not> builtin_name t"
    "t # us \<noteq> [''&'']"
  shows "run_command os line sh =
     Inr (if background_of (t # us)
          then sys_fork (\<lambda>tbl. child_run os (butlast (t # us)) \<lparr>c_fds = tbl, c_trace = []\<rparr>)
                 (sh\<lparr>strtok_saved := []\<rparr>)
          else sys_waitpid (next_pid sh)
                 (sys_fork (\<lambda>tbl. child_run os (t # us) \<lparr>c_fds = tbl, c_trace = []\<rparr>)
                    (sh\<lparr>strtok_saved := []\<rparr>)))"
proof -
  let ?ts = "t # us"
  let ?R = "replicate (MAX_ARGS - Suc (length ?ts)) Uninit"
  have ca: "command_array ?ts =
      (if background_of ?ts then map Ptr (butlast ?ts) @ Null # (Null # ?R)
       else map Ptr ?ts @ Null # ?R)"
    by (simp add: command_array_def)
  have hd: "\<exists>rest. command_array ?ts = Ptr t # rest"
  proof (cases "background_of ?ts")
    case True
    then have "us \<noteq> []" using assms(4) by (auto simp: background_of_def)
    then show ?thesis using True by (simp add: command_array_def)
  next
    case False
    then show ?thesis by (simp add: command_array_def)
  qed
  then obtain rest where r: "command_array ?ts = Ptr t # rest" by blast
  have hb: "handle_builtin os (command_array ?ts) (sh\<lparr>strtok_saved := []\<rparr>) =
      Inr (False, sh\<lparr>strtok_saved := []\<rparr>)"
    unfolding r by (rule handle_builtin_plain[OF assms(3)])
  show ?thesis
  proof (cases "background_of ?ts")
    case True
    then have "command_array ?ts = map Ptr (butlast ?ts) @ Null # (Null # ?R)" using ca by simp
    then have "\<And>c. redirect_and_exec os (command_array ?ts) c = child_run os (butlast ?ts) c"
      by (simp only: redirect_and_exec_tokens)
    then show ?thesis
      using run_command_tokens[of ?ts line os sh] assms(1,2) True by (simp add: hb)
  next
    case False
    then have "command_array ?ts = map Ptr ?ts @ Null # ?R" using ca by simp
    then have "\<And>c. redirect_and_exec os (command_array ?ts) c = child_run os ?ts c"
      by (simp only: redirect_and_exec_tokens)
    then show ?thesis
      using run_command_tokens[of ?ts line os sh] assms(1,2) False by (simp add: hb)
  qed
qed


lemma trim_newline_id: "CHR 0x0A \<notin> set buf \<Longrightarrow> trim_newline buf = buf"
  by (auto simp: trim_newline_def)

lemma shell_iteration_external:
  assumes "CHR 0x0A \<notin> set buf" "CHR ''$'' \<notin> set buf" "CHR ''|'' \<notin> set buf"
    "length buf < MAX_INPUT" "tokens CHR '' '' buf = t # us" "length (t # us) < MAX_ARGS"
    "\<not> builtin_name t" "\<not> background_of (t # us)"
  shows "shell_iteration os buf sh =
     Inr (sys_waitpid (next_pid sh)
            (sys_fork (\<lambda>tbl. child_run os (t # us) \<lparr>c_fds = tbl, c_trace = []\<rparr>)
               ((add_history buf sh)\<lparr>strtok_saved := []\<rparr>)))"
proof -
  have ne: "trim_newline buf \<noteq> []"
    using assms(1,5) by (auto simp: trim_newline_id tokens_def)
  have e: "expand_variables (env sh) (trim_newline buf) = Inr buf"
    using assms(1,2,4) by (simp add: trim_newline_id expand_variables_plain)
  have amp: "t # us \<noteq> [''&'']" using assms(8) by (auto simp: background_of_def)
  show ?thesis
    using run_command_external[OF assms(5,6,7) amp, of os "add_history buf sh"] assms(1,8)
    by (simp add: shell_iteration_command[OF e ne assms(3)] trim_newline_id add_history_frame)
qed

lemmas child_eval =
  child_run_def redirect_def sys_open_def sys_dup2_def sys_close_def perror_def exec_events_def
  first_arg_def is_redir_def next_token_def flags_for_def mode_for_def stream_of_def
  fd_dup2_def fd_close_def fd_is_open_def fd_set_def lowest_free_def mode_0644_def

lemmas shell_eval =
  turn_def sys_pipe_def sys_fork_def sys_wait_def sys_waitpid_def parent_close_def Let_def

section \<open>What execute_pipeline leaves behind\<close>

lemma count_kind_concat:
  "length (filter (\<lambda>k. k = K) (concat (replicate n ks))) = n * length (filter (\<lambda>k. k = K) ks)"
  by (induction n) simp_all

lemma count_kind_map:
  "length (filter (\<lambda>e. kind_of e = K) es) = length (filter (\<lambda>k. k = K) (map kind_of es))"
  by (induction es) simp_all

lemma execute_pipeline_fds:
  assumes "cs = tokens CHR ''|'' line" "cs \<noteq> []" "length cs < 10"
  shows "\<exists>sh'. execute_pipeline os line sh = Inr sh' \<and> fds sh' = fds (snd (after_loop os cs sh))"
proof -
  obtain saved' where "execute_pipeline os line sh =
     Inr (sys_wait
           (sys_fork
              (last_child os (fst (after_loop os cs sh))
                 (filled 0 (fresh_array MAX_ARGS) (tokens CHR '' '' (last cs))))
              ((snd (after_loop os cs sh))\<lparr>strtok_saved := saved'\<rparr>)))"
    using execute_pipeline_stages[OF assms] by blast
  then show ?thesis by (simp add: sys_wait_def sys_fork_def)
qed

lemma one_turn_fds:
  "fds (one_turn os commands saved i in_fd sh) =
     fd_close (fds (snd (sys_pipe sh))) (int (snd (fst (sys_pipe sh))))"
  "next_pipe (one_turn os commands saved i in_fd sh) = Suc (next_pipe sh)"
  by (simp_all add: one_turn_def parent_close_def sys_wait_def sys_fork_def sys_pipe_def Let_def)

lemma pipe_read_ends_append: "pipe_read_ends (xs @ ys) = pipe_read_ends xs @ pipe_read_ends ys"
  by (induction xs rule: pipe_read_ends.induct) auto

lemma one_turn_events:
  "\<exists>new. events (one_turn os commands saved i in_fd sh) = events sh @ new \<and>
     pipe_read_ends new = [lowest_free (fds sh)]"
  by (simp add: one_turn_def parent_close_def sys_wait_def sys_fork_def sys_pipe_def Let_def)

lemma pipeline_loop_read_ends:
  "\<exists>new. events (snd (pipeline_loop os commands num_cmds saved i in_fd sh)) = events sh @ new \<and>
     opens (fds (snd (pipeline_loop os commands num_cmds saved i in_fd sh))) =
       opens (fds sh) \<union> set (pipe_read_ends new)"
proof (induction "num_cmds - 1 - i" arbitrary: i in_fd sh)
  case 0
  then have "\<not> i < num_cmds - 1" by simp
  then show ?case by (simp add: pipeline_loop_done)
next
  case (Suc k)
  then have lt: "i < num_cmds - 1" and k: "k = num_cmds - 1 - Suc i" by simp_all
  let ?sh1 = "one_turn os commands saved i in_fd sh"
  let ?r = "snd (pipeline_loop os commands num_cmds saved (Suc i) (int (fst (fst (sys_pipe sh)))) ?sh1)"
  obtain new1 where n1: "events ?sh1 = events sh @ new1"
    "pipe_read_ends new1 = [lowest_free (fds sh)]"
    using one_turn_events by blast
  obtain new2 where n2: "events ?r = events ?sh1 @ new2"
    "opens (fds ?r) = opens (fds ?sh1) \<union> set (pipe_read_ends new2)"
    using Suc(1)[OF k, of "int (fst (fst (sys_pipe sh)))" ?sh1] by blast
  have "events ?r = events sh @ (new1 @ new2)" using n1 n2 by simp
  moreover have "opens (fds ?r) = opens (fds sh) \<union> set (pipe_read_ends (new1 @ new2))"
    using n1 n2 by (simp add: one_turn_opens pipe_read_ends_append)
  ultimately show ?case unfolding pipeline_loop_step[OF lt] by blast
qed

lemma execute_pipeline_read_ends:
  assumes "cs = tokens CHR ''|'' line" "cs \<noteq> []" "length cs < 10"
  shows "\<exists>sh' new. execute_pipeline os line sh = Inr sh' \<and> events sh' = events sh @ new \<and>
           set (open_fds (fds sh')) = set (open_fds (fds sh)) \<union> set (pipe_read_ends new) \<and>
           length (open_fds (fds sh')) = length (open_fds (fds sh)) + length cs"
proof -
  obtain saved' where e: "execute_pipeline os line sh =
     Inr (sys_wait
           (sys_fork
              (last_child os (fst (after_loop os cs sh))
                 (filled 0 (fresh_array MAX_ARGS) (tokens CHR '' '' (last cs))))
              ((snd (after_loop os cs sh))\<lparr>strtok_saved := saved'\<rparr>)))"
    (is "_ = Inr ?sh'")
    using execute_pipeline_stages[OF assms] by blast
  obtain new where n: "events (snd (after_loop os cs sh)) = events sh @ new"
    "opens (fds (snd (after_loop os cs sh))) = opens (fds sh) \<union> set (pipe_read_ends new)"
    unfolding after_loop_def using pipeline_loop_read_ends by blast
  let ?new = "new @ [Fork (next_pid (snd (after_loop os cs sh)))
      (last_child os (fst (after_loop os cs sh))
         (filled 0 (fresh_array MAX_ARGS) (tokens CHR '' '' (last cs)))
         (fds (snd (after_loop os cs sh)))), Wait]"
  have 1: "events ?sh' = events sh @ ?new" using n(1) by (simp add: sys_wait_def sys_fork_def)
  have 2: "set (open_fds (fds ?sh')) = set (open_fds (fds sh)) \<union> set (pipe_read_ends ?new)"
    using n(2) by (simp add: sys_wait_def sys_fork_def open_fds_opens pipe_read_ends_append)
  have 3: "length (open_fds (fds ?sh')) = length (open_fds (fds sh)) + length cs"
    using pipeline_loop_leaks[of os "map Ptr cs @ Null # replicate (9 - length cs) Uninit"
        "Suc (length cs)" "[]" 0 0 sh]
    by (simp add: sys_wait_def sys_fork_def after_loop_def)
  show ?thesis using e 1 2 3 by blast
qed

subsection \<open>Two pipelines\<close>

lemma stages_ex: "tokens CHR ''|'' ''echo A | cat'' = [''echo A '', '' cat'']"
  by (simp add: tokens_def)

lemma stages_ex_tokens:
  "tokens CHR '' '' ''echo A '' = [''echo'', ''A'']" "tokens CHR '' '' '' cat'' = [''cat'']"
  by (simp_all add: tokens_def)

lemma stages_ex2: "tokens CHR ''|'' ''sleep 5 | cat &'' = [''sleep 5 '', '' cat &'']"
  by (simp add: tokens_def)

lemma stages_ex2_tokens:
  "tokens CHR '' '' ''sleep 5 '' = [''sleep'', ''5'']" "tokens CHR '' '' '' cat &'' = [''cat'', ''&'']"
  by (simp_all add: tokens_def)

lemma echo_cat_fds:
  "fds (snd (after_loop os_grants [''echo A '', '' cat''] shell0)) =
    [Some (Inherited 0), Some (Inherited 1), Some (Inherited 2), Some (PipeRead 0),
        Some (PipeRead 1), None]"
  apply (simp add: after_loop_def)
  apply (subst pipeline_loop_step, simp)
  apply (subst pipeline_loop_step, simp)
  apply (subst pipeline_loop_done, simp)
  apply (simp add: one_turn_def parent_close_def sys_wait_def sys_fork_def sys_pipe_def Let_def shell0_def
     lowest_free_def fd_set_def fd_close_def fd_is_open_def)
  done

lemma echo_cat_run:
  "execute_pipeline os_grants ''echo A | cat'' shell0 =
     Inr (shell0\<lparr>
       fds := [Some (Inherited 0), Some (Inherited 1), Some (Inherited 2),
               Some (PipeRead 0), Some (PipeRead 1), None],
       events :=
         [Pipe 3 4,
          Fork 1 (Inr \<lparr>c_fds = [Some (Inherited 0), Some (PipeWrite 0), Some (Inherited 2),
                                None, Some (PipeWrite 0)],
                       c_trace = [Dup2 0 0, Dup2 4 1, Close 3, Exec (Some ''echo'') [''echo'', ''A'']]\<rparr>),
          Wait, ParentClose 4,
          Pipe 4 5,
          Fork 2 (Inr \<lparr>c_fds = [Some (PipeRead 0), Some (PipeWrite 1), Some (Inherited 2),
                                Some (PipeRead 0), None, Some (PipeWrite 1)],
                       c_trace = [Dup2 3 0, Dup2 5 1, Close 4, Exec (Some ''cat'') [''cat'']]\<rparr>),
          Wait, ParentClose 5,
          Fork 3 (Inr \<lparr>c_fds = [Some (PipeRead 1), Some (Inherited 1), Some (Inherited 2),
                                Some (PipeRead 0), Some (PipeRead 1), None],
                       c_trace = [Dup2 4 0, Exec (Some ''cat'') [''cat'']]\<rparr>),
          Wait],
       next_pid := 4, next_pipe := 2\<rparr>)"
proof -
  have "execute_pipeline os_grants ''echo A | cat'' shell0 =
     Inr (sys_wait
           (sys_fork
              (\<lambda>t. child_run os_grants (tokens CHR '' '' (last [''echo A '', '' cat'']))
                      (sys_dup2
                         (fst (turns os_grants (map (tokens CHR '' '') [''echo A '', '' cat'']) 0
                                 shell0)) 0
                         \<lparr>c_fds = t, c_trace = []\<rparr>))
              ((snd (turns os_grants (map (tokens CHR '' '') [''echo A '', '' cat'']) 0 shell0))
                 \<lparr>strtok_saved := []\<rparr>)))"
    by (rule execute_pipeline_turns) (simp_all add: stages_ex stages_ex_tokens MAX_ARGS_def)
  then show ?thesis
    by (simp add: stages_ex_tokens shell_eval shell0_def child_eval os_grants_def)
qed

lemma sleep_cat_ampersand_run:
  "shell_iteration os_grants ''sleep 5 | cat &'' shell0 =
     Inr (shell0\<lparr>
       fds := [Some (Inherited 0), Some (Inherited 1), Some (Inherited 2),
               Some (PipeRead 0), Some (PipeRead 1), None],
       events :=
         [Pipe 3 4,
          Fork 1 (Inr \<lparr>c_fds = [Some (Inherited 0), Some (PipeWrite 0), Some (Inherited 2),
                                None, Some (PipeWrite 0)],
                       c_trace = [Dup2 0 0, Dup2 4 1, Close 3, Exec (Some ''sleep'') [''sleep'', ''5'']]\<rparr>),
          Wait, ParentClose 4,
          Pipe 4 5,
          Fork 2 (Inr \<lparr>c_fds = [Some (PipeRead 0), Some (PipeWrite 1), Some (Inherited 2),
                                Some (PipeRead 0), None, Some (PipeWrite 1)],
                       c_trace = [Dup2 3 0, Dup2 5 1, Close 4, Exec (Some ''cat'') [''cat'', ''&'']]\<rparr>),
          Wait, ParentClose 5,
          Fork 3 (Inr \<lparr>c_fds = [Some (PipeRead 1), Some (Inherited 1), Some (Inherited 2),
                                Some (PipeRead 0), Some (PipeRead 1), None],
                       c_trace = [Dup2 4 0, Exec (Some ''cat'') [''cat'', ''&'']]\<rparr>),
          Wait],
       next_pid := 4, next_pipe := 2, history := [''sleep 5 | cat &'']\<rparr>)"
proof -
  let ?line = "''sleep 5 | cat &''"
  let ?sh = "add_history ?line shell0"
  have e: "expand_variables (env shell0) (trim_newline ?line) = Inr ?line"
    by (simp add: trim_newline_def expand_variables_def MAX_INPUT_def)
  have it: "shell_iteration os_grants ?line shell0 = execute_pipeline os_grants ?line ?sh"
    using shell_iteration_pipeline[OF e, of os_grants] by (simp add: trim_newline_def)
  have "execute_pipeline os_grants ?line ?sh =
     Inr (sys_wait
           (sys_fork
              (\<lambda>t. child_run os_grants (tokens CHR '' '' (last [''sleep 5 '', '' cat &'']))
                      (sys_dup2
                         (fst (turns os_grants (map (tokens CHR '' '') [''sleep 5 '', '' cat &'']) 0
                                 ?sh)) 0
                         \<lparr>c_fds = t, c_trace = []\<rparr>))
              ((snd (turns os_grants (map (tokens CHR '' '') [''sleep 5 '', '' cat &'']) 0 ?sh))
                 \<lparr>strtok_saved := []\<rparr>)))"
    by (rule execute_pipeline_turns) (simp_all add: stages_ex2 stages_ex2_tokens MAX_ARGS_def)
  then show ?thesis
    unfolding it
    by (simp add: stages_ex2_tokens shell_eval shell0_def child_eval os_grants_def
        add_history_def MAX_HISTORY_def)
qed

lemma sleep_ampersand_run:
  "shell_iteration os_grants ''sleep 5 &'' shell0 =
     Inr (shell0\<lparr>events :=
                   [Fork 1 (Inr \<lparr>c_fds = fds shell0,
                                 c_trace = [Exec (Some ''sleep'') [''sleep'', ''5'']]\<rparr>)],
                 next_pid := 2, history := [''sleep 5 &'']\<rparr>)"
proof -
  have t: "tokens CHR '' '' ''sleep 5 &'' = [''sleep'', ''5'', ''&'']"
    by (simp add: tokens_def)
  have e2: "expand_variables (env shell0) (trim_newline ''sleep 5 &'') = Inr ''sleep 5 &''"
    by (simp add: trim_newline_def expand_variables_plain MAX_INPUT_def)
  have it2: "shell_iteration os_grants ''sleep 5 &'' shell0 =
      run_command os_grants ''sleep 5 &'' (add_history ''sleep 5 &'' shell0)"
    using shell_iteration_command[OF e2, of os_grants] by (simp add: trim_newline_def)
  have "run_command os_grants ''sleep 5 &'' (add_history ''sleep 5 &'' shell0) =
     Inr (if background_of [''sleep'', ''5'', ''&'']
          then sys_fork (\<lambda>tbl. child_run os_grants (butlast [''sleep'', ''5'', ''&''])
                                  \<lparr>c_fds = tbl, c_trace = []\<rparr>)
                 ((add_history ''sleep 5 &'' shell0)\<lparr>strtok_saved := []\<rparr>)
          else sys_waitpid (next_pid (add_history ''sleep 5 &'' shell0))
                 (sys_fork (\<lambda>tbl. child_run os_grants [''sleep'', ''5'', ''&'']
                                     \<lparr>c_fds = tbl, c_trace = []\<rparr>)
                    ((add_history ''sleep 5 &'' shell0)\<lparr>strtok_saved := []\<rparr>)))"
    by (rule run_command_external) (simp_all add: t MAX_ARGS_def builtin_name_def)
  then show ?thesis
    unfolding it2
    by (simp add: background_of_def sys_fork_def add_history_def shell0_def MAX_HISTORY_def
        child_eval os_grants_def)
qed

lemma tab_line_tokens:
  "tokens CHR '' '' [CHR ''l'', CHR ''s'', CHR 0x09, CHR ''-'', CHR ''l''] =
     [[CHR ''l'', CHR ''s'', CHR 0x09, CHR ''-'', CHR ''l'']]"
  by (simp add: tokens_def)

section \<open>A command that fills the argument array\<close>

lemma tokens_word:
  assumes "w \<noteq> []" "d \<notin> set w"
  shows "tokens d (w @ d # s) = w # tokens d s"
  using assms by (simp add: tokens_def pieces_nodelim)

lemma tokens_repeated:
  assumes "w \<noteq> []" "d \<notin> set w"
  shows "tokens d (concat (replicate n (w @ [d])) @ s) = replicate n w @ tokens d s"
  using tokens_word[OF assms] by (induction n) simp_all

lemma hr_loop_unterminated:
  assumes "list_all (\<lambda>t. \<not> is_redir t) ts" "is_redir op"
  shows "handle_redirection_loop os (length pre) (pre @ map Ptr ts @ [Ptr op]) c = Inl OutOfBounds"
  using assms(1)
proof (induction ts arbitrary: pre)
  case Nil
  have l: "\<And>x. load (pre @ [Ptr x]) (length pre) = Inr (Some x)"
    by (simp add: load_def)
  have o: "\<And>x. load (pre @ [Ptr x]) (Suc (length pre)) = Inl OutOfBounds"
    by (simp add: load_def)
  show ?case using assms(2)
    by (subst handle_redirection_loop.simps) (auto simp: l o is_redir_def)
next
  case (Cons t ts)
  then have nt: "\<not> is_redir t" and rest: "list_all (\<lambda>t. \<not> is_redir t) ts" by simp_all
  have "handle_redirection_loop os (length pre) (pre @ map Ptr (t # ts) @ [Ptr op]) c =
        handle_redirection_loop os (length (pre @ [Ptr t])) ((pre @ [Ptr t]) @ map Ptr ts @ [Ptr op]) c"
    using hr_loop_plain[OF nt, of os pre "map Ptr ts @ [Ptr op]" c] by simp
  also have "\<dots> = Inl OutOfBounds" by (rule Cons.IH[OF rest])
  finally show ?case .
qed

lemma full_line_tokens:
  "tokens CHR '' '' (concat (replicate 127 ''a '') @ ''>'') = replicate 127 ''a'' @ [''>'']"
proof -
  have "tokens CHR '' '' (concat (replicate 127 (''a'' @ [CHR '' ''])) @ ''>'') =
          replicate 127 ''a'' @ tokens CHR '' '' ''>''"
    by (rule tokens_repeated) simp_all
  then show ?thesis by (simp add: tokens_def)
qed

lemma full_line_parse:
  "\<exists>saved'. parse_args (Some (concat (replicate 127 ''a '') @ ''>'')) (fresh_array MAX_ARGS) [] =
     Inr (map Ptr (replicate 127 ''a'') @ [Ptr ''>''], saved')"
proof -
  let ?line = "concat (replicate 127 ''a '') @ ''>''"
  have "filled 0 (fresh_array MAX_ARGS) (tokens CHR '' '' ?line) =
      map Ptr (replicate 127 ''a'') @ [Ptr ''>'']"
    unfolding full_line_tokens by (simp add: filled_def MAX_ARGS_def)
  then show ?thesis
    using parse_args_tokens[of "fresh_array MAX_ARGS" ?line "[]"] by (simp add: fresh_array_def)
qed

lemma count_args_unterminated:
  "count_args (pre @ map Ptr ts) (length pre) = Inl OutOfBounds"
proof (induction ts arbitrary: pre)
  case Nil
  show ?case by (subst count_args.simps) (simp add: load_def)
next
  case (Cons t ts)
  have "count_args ((pre @ [Ptr t]) @ map Ptr ts) (length (pre @ [Ptr t])) = Inl OutOfBounds"
    by (rule Cons.IH)
  then show ?case using count_args_Ptr[of pre t "map Ptr ts"] by simp
qed

lemma run_command_full:
  assumes "MAX_ARGS \<le> length (tokens CHR '' '' line)"
  shows "run_command os line sh = Inl OutOfBounds"
proof -
  let ?ts = "tokens CHR '' '' line"
  obtain saved' where p: "parse_args (Some line) (fresh_array MAX_ARGS) (strtok_saved sh) =
      Inr (filled 0 (fresh_array MAX_ARGS) ?ts, saved')"
    using parse_args_tokens[of "fresh_array MAX_ARGS" line "strtok_saved sh"]
    by (auto simp: fresh_array_def)
  have f: "filled 0 (fresh_array MAX_ARGS) ?ts = map Ptr (take MAX_ARGS ?ts)"
    using assms by (simp add: filled_def)
  have "count_args (map Ptr (take MAX_ARGS ?ts)) 0 = Inl OutOfBounds"
    using count_args_unterminated[of "[]" "take MAX_ARGS ?ts"] by simp
  then have "background_flag (map Ptr (take MAX_ARGS ?ts)) = Inl OutOfBounds"
    by (simp add: background_flag_def)
  then show ?thesis by (simp add: run_command_def p f)
qed

lemma shell_iteration_full:
  assumes "CHR 0x0A \<notin> set buf" "CHR ''$'' \<notin> set buf" "CHR ''|'' \<notin> set buf"
    "length buf < MAX_INPUT" "MAX_ARGS \<le> length (tokens CHR '' '' buf)"
  shows "shell_iteration os buf sh = Inl OutOfBounds"
proof -
  have "tokens CHR '' '' buf \<noteq> []" using assms(5) by (auto simp: MAX_ARGS_def)
  then have ne: "trim_newline buf \<noteq> []"
    using assms(1) by (auto simp: trim_newline_id tokens_def)
  have e: "expand_variables (env sh) (trim_newline buf) = Inr buf"
    using assms(1,2,4) by (simp add: trim_newline_id expand_variables_plain)
  show ?thesis
    using run_command_full[OF assms(5)]
    by (simp add: shell_iteration_command[OF e ne assms(3)])
qed

lemma full_line_tokens_amp:
  "tokens CHR '' '' (concat (replicate 127 ''a '') @ ''&'') = replicate 127 ''a'' @ [''&'']"
proof -
  have "tokens CHR '' '' (concat (replicate 127 (''a'' @ [CHR '' ''])) @ ''&'') =
          replicate 127 ''a'' @ tokens CHR '' '' ''&''"
    by (rule tokens_repeated) simp_all
  then show ?thesis by (simp add: tokens_def)
qed

lemma length_concat_replicate: "length (concat (replicate n w)) = n * length w"
  by (induction n) simp_all

lemma full_line_background:
  "shell_iteration os_grants (concat (replicate 127 ''a '') @ ''&'') shell0 = Inl OutOfBounds"
  by (rule shell_iteration_full)
     (simp_all add: full_line_tokens_amp MAX_INPUT_def MAX_ARGS_def length_concat_replicate)


section \<open>A line that ends with an ampersand\<close>

text \<open>
  The branch of \<open>shell_loop\<close> for a line without a pipe separator: when the line, once its
  variables are expanded, has fewer than \<open>MAX_ARGS\<close> tokens, the last of which is \<^verbatim>\<open>&\<close>,
  the turn of the loop ends without a call of \<^verbatim>\<open>wait\<close> or \<^verbatim>\<open>waitpid\<close>; when the command
  is not a built-in one, the shell forks exactly one child, and the array that the child
  works on holds the tokens before the \<^verbatim>\<open>&\<close> followed by a null pointer in its place.
\<close>

lemma background_line_is_not_awaited:
  assumes "expand_variables (env sh) (trim_newline buf) = Inr line"
    and "CHR ''|'' \<notin> set line"
    and "tokens CHR '' '' line = ts @ [''&'']"
    and "length ts + 1 < MAX_ARGS"
  shows "\<exists>sh'. shell_iteration os buf sh = Inr sh' \<and>
           filter is_wait (events sh') = filter is_wait (events sh) \<and>
           ((case ts of [] \<Rightarrow> False | t # us \<Rightarrow> \<not> builtin_name t) \<longrightarrow>
            events sh' = events sh @
              [Fork (next_pid sh)
                 (redirect_and_exec os
                    (map Ptr ts @ Null # Null # replicate (MAX_ARGS - (length ts + 2)) Uninit)
                    \<lparr>c_fds = fds sh, c_trace = []\<rparr>)])"
proof -
  let ?A = "map Ptr ts @ Null # Null # replicate (MAX_ARGS - (length ts + 2)) Uninit"
  let ?sh0 = "(add_history (trim_newline buf) sh)\<lparr>strtok_saved := []\<rparr>"
  let ?child = "\<lambda>t. redirect_and_exec os ?A \<lparr>c_fds = t, c_trace = []\<rparr>"
  have ne: "trim_newline buf \<noteq> []"
  proof
    assume "trim_newline buf = []"
    then have "line = []" using assms(1) by (simp add: expand_variables_def)
    then show False using assms(3) by (simp add: tokens_def)
  qed
  have bg: "background_of (ts @ [''&''])" by (simp add: background_of_def)
  obtain handled sh1 where hb: "handle_builtin os ?A ?sh0 = Inr (handled, sh1)"
    and quiet: "filter is_wait (events sh1) = filter is_wait (events ?sh0)"
    using handle_builtin_quiet[of os ts "Null # replicate (MAX_ARGS - (length ts + 2)) Uninit" ?sh0]
    by auto
  let ?sh' = "if handled then sh1 else sys_fork ?child sh1"
  have res: "shell_iteration os buf sh = Inr ?sh'"
    using run_command_tokens[of "ts @ [''&'']" line os "add_history (trim_newline buf) sh"]
      assms(3,4) bg hb
    by (simp add: shell_iteration_command[OF assms(1) ne assms(2)] command_array_background)
  have w: "filter is_wait (events ?sh') = filter is_wait (events sh)"
    using quiet by (simp add: sys_fork_def is_wait_def add_history_frame)
  have launch: "events ?sh' = events sh @ [Fork (next_pid sh) (?child (fds sh))]"
    if "case ts of [] \<Rightarrow> False | t # us \<Rightarrow> \<not> builtin_name t"
  proof -
    from that obtain t us where ts: "ts = t # us" and nb: "\<not> builtin_name t"
      by (cases ts) simp_all
    have "handle_builtin os ?A ?sh0 = Inr (False, ?sh0)"
      using handle_builtin_plain[OF nb] ts by simp
    then have "handled = False" "sh1 = ?sh0" using hb by simp_all
    then show ?thesis by (simp add: sys_fork_def add_history_frame)
  qed
  show ?thesis using res w launch by auto
qed

section \<open>The claims\<close>

text \<open>
  Claim C1 (the code differs). For a line with \<open>N\<close> commands between pipe separators
  (\<open>1 \<le> N \<le> 9\<close>, each of fewer than \<open>MAX_ARGS\<close> tokens), \<open>execute_pipeline\<close> creates
  \<open>N\<close> pipes, not \<open>N - 1\<close>, and forks \<open>N + 1\<close> children, not \<open>N\<close>: the loop runs while
  \<open>i < num_cmds - 1\<close>, and \<open>num_cmds\<close> also counts the null pointer that ends
  \<^verbatim>\<open>commands\<close>, so the loop already forks the last command, with its output in one more
  pipe, and the code under \<^verbatim>\<open>// Last command\<close> forks it a second time. The child of
  a command calls \<^verbatim>\<open>execvp\<close> once, on the tokens before the first redirection operator;
  the child of a command without a program name ends in \<^verbatim>\<open>execvp\<close> on the null pointer.
\<close>

theorem pipeline_makes_a_pipe_per_stage_and_runs_the_last_stage_twice:
  assumes "tokens CHR ''|'' line = cs" "cs \<noteq> []" "length cs < 10"
    and "list_all (\<lambda>cmd. length (tokens CHR '' '' cmd) < MAX_ARGS) cs"
  shows "\<exists>sh'. execute_pipeline os line sh = Inr sh' \<and>
           length (filter (\<lambda>e. kind_of e = KPipe) (events sh')) =
             length (filter (\<lambda>e. kind_of e = KPipe) (events sh)) + length cs \<and>
           fork_results (events sh') =
             fork_results (events sh) @ map exec_of cs @ [exec_of (last cs)]"
proof -
  obtain sh' where e: "execute_pipeline os line sh = Inr sh'"
    and k: "map kind_of (events sh') =
             map kind_of (events sh) @
             concat (replicate (length cs) [KPipe, KFork, KWait, KClose]) @ [KFork, KWait]"
    using execute_pipeline_kinds[OF assms(1)[symmetric] assms(2,3), of os sh] by blast
  have "length (filter (\<lambda>e. kind_of e = KPipe) (events sh')) =
          length (filter (\<lambda>e. kind_of e = KPipe) (events sh)) + length cs"
    unfolding count_kind_map k by (simp add: count_kind_concat)
  moreover have "fork_results (events sh') =
             fork_results (events sh) @ map exec_of cs @ [exec_of (last cs)]"
    using execute_pipeline_argvs[OF assms(1)[symmetric] assms(2,3,4), of os sh] e by auto
  ultimately show ?thesis using e by blast
qed

theorem pipeline_makes_a_pipe_per_stage_and_runs_the_last_stage_twice_witness:
  "tokens CHR ''|'' ''echo A | cat'' = [''echo A '', '' cat''] \<and>
   [''echo A '', '' cat''] \<noteq> [] \<and> length [''echo A '', '' cat''] < 10 \<and>
   list_all (\<lambda>cmd. length (tokens CHR '' '' cmd) < MAX_ARGS) [''echo A '', '' cat''] \<and>
   (\<exists>sh'. execute_pipeline os_grants ''echo A | cat'' shell0 = Inr sh' \<and>
      length (filter (\<lambda>e. kind_of e = KPipe) (events sh')) = 2 \<and>
      fork_results (events sh') = [Inr [[''echo'', ''A'']], Inr [[''cat'']], Inr [[''cat'']]] \<and>
      fork_argvs (events sh') = [[''echo'', ''A''], [''cat''], [''cat'']])"
proof -
  have h: "tokens CHR ''|'' ''echo A | cat'' = [''echo A '', '' cat'']"
    "[''echo A '', '' cat''] \<noteq> []" "length [''echo A '', '' cat''] < 10"
    "list_all (\<lambda>cmd. length (tokens CHR '' '' cmd) < MAX_ARGS) [''echo A '', '' cat'']"
    by (simp_all add: stages_ex stages_ex_tokens MAX_ARGS_def)
  show ?thesis
    using h pipeline_makes_a_pipe_per_stage_and_runs_the_last_stage_twice[OF h, of os_grants shell0]
    by (auto simp: stages_ex_tokens shell0_def exec_of_def first_arg_def argv_of_def is_redir_def
        numeral_2_eq_2 fork_argvs_results)
qed

text \<open>
  Claim C2 (the code differs). In the shell, the loop of \<open>execute_pipeline\<close> closes the
  write end of each pipe and never the read end, which it keeps in \<^verbatim>\<open>in_fd\<close>. After
  \<open>execute_pipeline\<close> on a line with \<open>N\<close> commands the descriptors open in the shell are
  those that were open before and the read end of every pipe it created: \<open>N\<close> more than
  before.
\<close>

theorem pipeline_leaves_read_ends_open:
  assumes "tokens CHR ''|'' line = cs" "cs \<noteq> []" "length cs < 10"
  shows "\<exists>sh' new. execute_pipeline os line sh = Inr sh' \<and> events sh' = events sh @ new \<and>
           set (open_fds (fds sh')) = set (open_fds (fds sh)) \<union> set (pipe_read_ends new) \<and>
           length (open_fds (fds sh')) = length (open_fds (fds sh)) + length cs"
  using execute_pipeline_read_ends[OF assms(1)[symmetric] assms(2,3)] .

theorem pipeline_leaves_read_ends_open_witness:
  "tokens CHR ''|'' ''echo A | cat'' = [''echo A '', '' cat''] \<and>
   [''echo A '', '' cat''] \<noteq> [] \<and> length [''echo A '', '' cat''] < 10 \<and>
   open_fds (fds shell0) = [0, 1, 2] \<and>
   (\<exists>sh'. execute_pipeline os_grants ''echo A | cat'' shell0 = Inr sh' \<and>
      length (open_fds (fds sh')) = 5 \<and>
      fds sh' = [Some (Inherited 0), Some (Inherited 1), Some (Inherited 2),
                 Some (PipeRead 0), Some (PipeRead 1), None])"
proof -
  have h: "tokens CHR ''|'' ''echo A | cat'' = [''echo A '', '' cat'']"
    "[''echo A '', '' cat''] \<noteq> []" "length [''echo A '', '' cat''] < 10"
    by (simp_all add: stages_ex)
  have l: "open_fds (fds shell0) = [0, 1, 2]" by (simp add: shell0_def open_fds_def upt_rec)
  obtain sh' where e: "execute_pipeline os_grants ''echo A | cat'' shell0 = Inr sh'"
    and n: "length (open_fds (fds sh')) = length (open_fds (fds shell0)) + length [''echo A '', '' cat'']"
    using pipeline_leaves_read_ends_open[OF h, of os_grants shell0] by blast
  have "fds sh' = fds (snd (after_loop os_grants [''echo A '', '' cat''] shell0))"
    using execute_pipeline_fds[OF h(1)[symmetric] h(2,3), of os_grants shell0] e by auto
  then have "fds sh' = [Some (Inherited 0), Some (Inherited 1), Some (Inherited 2),
                 Some (PipeRead 0), Some (PipeRead 1), None]"
    by (simp only: echo_cat_fds)
  then show ?thesis using h l e n by simp
qed

text \<open>
  Claim C3 (the code differs). \<open>execute_pipeline\<close> does not fork all the commands before
  it waits: \<^verbatim>\<open>wait(NULL)\<close> stands inside the loop, right after the fork of each stage, so
  the shell waits for the stage that writes into a pipe before it has forked the stage
  that reads it. On \<^verbatim>\<open>echo A | cat\<close> the steps of the shell are, in order: pipe, fork,
  wait, close of the write end, the same four again, then the fork of the last command and
  a wait. The third step is a wait, and two forks come after it.
\<close>

theorem a_wait_comes_before_the_later_forks:
  "execute_pipeline os_grants ''echo A | cat'' shell0 =
     Inr (shell0\<lparr>
       fds := [Some (Inherited 0), Some (Inherited 1), Some (Inherited 2),
               Some (PipeRead 0), Some (PipeRead 1), None],
       events :=
         [Pipe 3 4,
          Fork 1 (Inr \<lparr>c_fds = [Some (Inherited 0), Some (PipeWrite 0), Some (Inherited 2),
                                None, Some (PipeWrite 0)],
                       c_trace = [Dup2 0 0, Dup2 4 1, Close 3, Exec (Some ''echo'') [''echo'', ''A'']]\<rparr>),
          Wait, ParentClose 4,
          Pipe 4 5,
          Fork 2 (Inr \<lparr>c_fds = [Some (PipeRead 0), Some (PipeWrite 1), Some (Inherited 2),
                                Some (PipeRead 0), None, Some (PipeWrite 1)],
                       c_trace = [Dup2 3 0, Dup2 5 1, Close 4, Exec (Some ''cat'') [''cat'']]\<rparr>),
          Wait, ParentClose 5,
          Fork 3 (Inr \<lparr>c_fds = [Some (PipeRead 1), Some (Inherited 1), Some (Inherited 2),
                                Some (PipeRead 0), Some (PipeRead 1), None],
                       c_trace = [Dup2 4 0, Exec (Some ''cat'') [''cat'']]\<rparr>),
          Wait],
       next_pid := 4, next_pipe := 2\<rparr>) \<and>
   kinds_of (execute_pipeline os_grants ''echo A | cat'' shell0) =
     Inr [KPipe, KFork, KWait, KClose, KPipe, KFork, KWait, KClose, KFork, KWait] \<and>
   \<not> forks_before_waits [KPipe, KFork, KWait, KClose, KPipe, KFork, KWait, KClose, KFork, KWait]"
  unfolding kinds_of_def echo_cat_run
  by (simp add: kind_of_def forks_before_waits_def)

text \<open>
  Claim C4 (the code differs). \<open>shell_loop\<close> looks for a pipe separator first and hands
  such a line to \<open>execute_pipeline\<close>, which never looks for a trailing \<^verbatim>\<open>&\<close>: on
  \<^verbatim>\<open>sleep 5 | cat &\<close> the shell waits after every fork, and \<^verbatim>\<open>cat\<close> receives the \<^verbatim>\<open>&\<close>
  as an argument. The other branch of \<open>shell_loop\<close> does what the claim says: on
  \<^verbatim>\<open>sleep 5 &\<close> it takes the \<^verbatim>\<open>&\<close> out of the array, forks \<^verbatim>\<open>sleep 5\<close> and does not wait.
  That branch in turn fails on a line of \<open>MAX_ARGS\<close> tokens that ends with \<^verbatim>\<open>&\<close>: the
  array then holds no null pointer, and the loop that counts the arguments reads the slot
  after its end.
\<close>

theorem pipeline_with_ampersand_is_awaited:
  "shell_iteration os_grants ''sleep 5 | cat &'' shell0 =
     Inr (shell0\<lparr>
       fds := [Some (Inherited 0), Some (Inherited 1), Some (Inherited 2),
               Some (PipeRead 0), Some (PipeRead 1), None],
       events :=
         [Pipe 3 4,
          Fork 1 (Inr \<lparr>c_fds = [Some (Inherited 0), Some (PipeWrite 0), Some (Inherited 2),
                                None, Some (PipeWrite 0)],
                       c_trace = [Dup2 0 0, Dup2 4 1, Close 3, Exec (Some ''sleep'') [''sleep'', ''5'']]\<rparr>),
          Wait, ParentClose 4,
          Pipe 4 5,
          Fork 2 (Inr \<lparr>c_fds = [Some (PipeRead 0), Some (PipeWrite 1), Some (Inherited 2),
                                Some (PipeRead 0), None, Some (PipeWrite 1)],
                       c_trace = [Dup2 3 0, Dup2 5 1, Close 4, Exec (Some ''cat'') [''cat'', ''&'']]\<rparr>),
          Wait, ParentClose 5,
          Fork 3 (Inr \<lparr>c_fds = [Some (PipeRead 1), Some (Inherited 1), Some (Inherited 2),
                                Some (PipeRead 0), Some (PipeRead 1), None],
                       c_trace = [Dup2 4 0, Exec (Some ''cat'') [''cat'', ''&'']]\<rparr>),
          Wait],
       next_pid := 4, next_pipe := 2, history := [''sleep 5 | cat &'']\<rparr>) \<and>
   shell_iteration os_grants ''sleep 5 &'' shell0 =
     Inr (shell0\<lparr>events :=
                   [Fork 1 (Inr \<lparr>c_fds = fds shell0,
                                 c_trace = [Exec (Some ''sleep'') [''sleep'', ''5'']]\<rparr>)],
                 next_pid := 2, history := [''sleep 5 &'']\<rparr>) \<and>
   shell_iteration os_grants (concat (replicate 127 ''a '') @ ''&'') shell0 = Inl OutOfBounds"
  using sleep_cat_ampersand_run sleep_ampersand_run full_line_background by simp

text \<open>
  Claim C5 (the code differs). \<open>handle_redirection\<close> never looks whether a file name
  follows a redirection operator. On the line \<^verbatim>\<open>cat <\<close> the slot after the operator holds
  the null pointer that ends the array, and the child passes it to \<^verbatim>\<open>open\<close> as the
  pathname, prints the message of \<^verbatim>\<open>perror("open")\<close> and runs \<^verbatim>\<open>cat\<close> all the same. On
  \<^verbatim>\<open>echo A >\<close> it passes the null pointer to \<^verbatim>\<open>open\<close> as well and reports nothing. On a
  command of \<open>MAX_ARGS\<close> tokens that ends with \<^verbatim>\<open>>\<close> the array has no null pointer, the
  operator is in the last slot, and \<open>handle_redirection\<close> reads the slot after the end of
  the array.
\<close>

theorem missing_filename_gives_open_a_null_pointer:
  "children_of (shell_iteration os_grants ''cat <'' shell0) =
     Inr [Inr [Open None [O_RDONLY] None (- 1), Perror ''open'', Dup2 (- 1) 0, Close (- 1),
               Exec (Some ''cat'') [''cat'']]] \<and>
   children_of (shell_iteration os_grants ''echo A >'' shell0) =
     Inr [Inr [Open None [O_WRONLY, O_CREAT, O_TRUNC] (Some 420) (- 1), Dup2 (- 1) 1,
               Close (- 1), Exec (Some ''echo'') [''echo'', ''A'']]] \<and>
   (\<exists>args saved'.
      parse_args (Some (concat (replicate 127 ''a '') @ ''>'')) (fresh_array MAX_ARGS) [] =
        Inr (args, saved') \<and>
      handle_redirection os_grants args \<lparr>c_fds = fds shell0, c_trace = []\<rparr> = Inl OutOfBounds)"
proof -
  have t1: "tokens CHR '' '' ''cat <'' = [''cat'', ''<'']"
    and t2: "tokens CHR '' '' ''echo A >'' = [''echo'', ''A'', ''>'']"
    by (simp_all add: tokens_def)
  have "shell_iteration os_grants ''cat <'' shell0 =
     Inr (sys_waitpid (next_pid shell0)
            (sys_fork (\<lambda>tbl. child_run os_grants [''cat'', ''<''] \<lparr>c_fds = tbl, c_trace = []\<rparr>)
               ((add_history ''cat <'' shell0)\<lparr>strtok_saved := []\<rparr>)))"
    by (rule shell_iteration_external)
       (simp_all add: t1 MAX_INPUT_def MAX_ARGS_def builtin_name_def background_of_def)
  then have a: "children_of (shell_iteration os_grants ''cat <'' shell0) =
     Inr [Inr [Open None [O_RDONLY] None (- 1), Perror ''open'', Dup2 (- 1) 0, Close (- 1),
               Exec (Some ''cat'') [''cat'']]]"
    by (simp add: children_of_def sys_waitpid_def sys_fork_def add_history_def shell0_def
        MAX_HISTORY_def child_eval os_grants_def)
  have "shell_iteration os_grants ''echo A >'' shell0 =
     Inr (sys_waitpid (next_pid shell0)
            (sys_fork (\<lambda>tbl. child_run os_grants [''echo'', ''A'', ''>'']
                                    \<lparr>c_fds = tbl, c_trace = []\<rparr>)
               ((add_history ''echo A >'' shell0)\<lparr>strtok_saved := []\<rparr>)))"
    by (rule shell_iteration_external)
       (simp_all add: t2 MAX_INPUT_def MAX_ARGS_def builtin_name_def background_of_def)
  then have b: "children_of (shell_iteration os_grants ''echo A >'' shell0) =
     Inr [Inr [Open None [O_WRONLY, O_CREAT, O_TRUNC] (Some 420) (- 1), Dup2 (- 1) 1,
               Close (- 1), Exec (Some ''echo'') [''echo'', ''A'']]]"
    by (simp add: children_of_def sys_waitpid_def sys_fork_def add_history_def shell0_def
        MAX_HISTORY_def child_eval os_grants_def)
  have "handle_redirection os_grants (map Ptr (replicate 127 ''a'') @ [Ptr ''>''])
      \<lparr>c_fds = fds shell0, c_trace = []\<rparr> = Inl OutOfBounds"
    unfolding handle_redirection_def
    using hr_loop_unterminated[of "replicate 127 ''a''" "''>''" os_grants "[]"]
    by (simp add: is_redir_def list_all_iff)
  then have c: "\<exists>args saved'.
      parse_args (Some (concat (replicate 127 ''a '') @ ''>'')) (fresh_array MAX_ARGS) [] =
        Inr (args, saved') \<and>
      handle_redirection os_grants args \<lparr>c_fds = fds shell0, c_trace = []\<rparr> = Inl OutOfBounds"
    using full_line_parse by auto
  show ?thesis using a b c by simp
qed

text \<open>
  Claim C6 (the code differs). When the file of a redirection cannot be opened, the
  command is still executed for each of the three operators, but only the branch of
  \<^verbatim>\<open><\<close> calls \<^verbatim>\<open>perror\<close>: the branches of \<^verbatim>\<open>>\<close> and \<^verbatim>\<open>>>\<close> report nothing.
\<close>

theorem refused_output_file_is_not_reported:
  "children_of (shell_iteration os_refuses_open ''echo A > /nonexistent/f'' shell0) =
     Inr [Inr [Open (Some ''/nonexistent/f'') [O_WRONLY, O_CREAT, O_TRUNC] (Some 420) (- 1),
               Dup2 (- 1) 1, Close (- 1), Exec (Some ''echo'') [''echo'', ''A'']]] \<and>
   children_of (shell_iteration os_refuses_open ''echo A >> /nonexistent/f'' shell0) =
     Inr [Inr [Open (Some ''/nonexistent/f'') [O_WRONLY, O_CREAT, O_APPEND] (Some 420) (- 1),
               Dup2 (- 1) 1, Close (- 1), Exec (Some ''echo'') [''echo'', ''A'']]] \<and>
   children_of (shell_iteration os_refuses_open ''cat < /nonexistent/f'' shell0) =
     Inr [Inr [Open (Some ''/nonexistent/f'') [O_RDONLY] None (- 1), Perror ''open'',
               Dup2 (- 1) 0, Close (- 1), Exec (Some ''cat'') [''cat'']]]"
proof -
  have t1: "tokens CHR '' '' ''echo A > /nonexistent/f'' = [''echo'', ''A'', ''>'', ''/nonexistent/f'']"
    and t2: "tokens CHR '' '' ''echo A >> /nonexistent/f'' = [''echo'', ''A'', ''>>'', ''/nonexistent/f'']"
    and t3: "tokens CHR '' '' ''cat < /nonexistent/f'' = [''cat'', ''<'', ''/nonexistent/f'']"
    by (simp_all add: tokens_def)
  have "shell_iteration os_refuses_open ''echo A > /nonexistent/f'' shell0 =
     Inr (sys_waitpid (next_pid shell0)
            (sys_fork (\<lambda>tbl. child_run os_refuses_open [''echo'', ''A'', ''>'', ''/nonexistent/f'']
                                    \<lparr>c_fds = tbl, c_trace = []\<rparr>)
               ((add_history ''echo A > /nonexistent/f'' shell0)\<lparr>strtok_saved := []\<rparr>)))"
    by (rule shell_iteration_external)
       (simp_all add: t1 MAX_INPUT_def MAX_ARGS_def builtin_name_def background_of_def)
  then have a: "children_of (shell_iteration os_refuses_open ''echo A > /nonexistent/f'' shell0) =
     Inr [Inr [Open (Some ''/nonexistent/f'') [O_WRONLY, O_CREAT, O_TRUNC] (Some 420) (- 1),
               Dup2 (- 1) 1, Close (- 1), Exec (Some ''echo'') [''echo'', ''A'']]]"
    by (simp add: children_of_def sys_waitpid_def sys_fork_def add_history_def shell0_def
        MAX_HISTORY_def child_eval os_refuses_open_def)
  have "shell_iteration os_refuses_open ''echo A >> /nonexistent/f'' shell0 =
     Inr (sys_waitpid (next_pid shell0)
            (sys_fork (\<lambda>tbl. child_run os_refuses_open [''echo'', ''A'', ''>>'', ''/nonexistent/f'']
                                    \<lparr>c_fds = tbl, c_trace = []\<rparr>)
               ((add_history ''echo A >> /nonexistent/f'' shell0)\<lparr>strtok_saved := []\<rparr>)))"
    by (rule shell_iteration_external)
       (simp_all add: t2 MAX_INPUT_def MAX_ARGS_def builtin_name_def background_of_def)
  then have b: "children_of (shell_iteration os_refuses_open ''echo A >> /nonexistent/f'' shell0) =
     Inr [Inr [Open (Some ''/nonexistent/f'') [O_WRONLY, O_CREAT, O_APPEND] (Some 420) (- 1),
               Dup2 (- 1) 1, Close (- 1), Exec (Some ''echo'') [''echo'', ''A'']]]"
    by (simp add: children_of_def sys_waitpid_def sys_fork_def add_history_def shell0_def
        MAX_HISTORY_def child_eval os_refuses_open_def)
  have "shell_iteration os_refuses_open ''cat < /nonexistent/f'' shell0 =
     Inr (sys_waitpid (next_pid shell0)
            (sys_fork (\<lambda>tbl. child_run os_refuses_open [''cat'', ''<'', ''/nonexistent/f'']
                                    \<lparr>c_fds = tbl, c_trace = []\<rparr>)
               ((add_history ''cat < /nonexistent/f'' shell0)\<lparr>strtok_saved := []\<rparr>)))"
    by (rule shell_iteration_external)
       (simp_all add: t3 MAX_INPUT_def MAX_ARGS_def builtin_name_def background_of_def)
  then have c: "children_of (shell_iteration os_refuses_open ''cat < /nonexistent/f'' shell0) =
     Inr [Inr [Open (Some ''/nonexistent/f'') [O_RDONLY] None (- 1), Perror ''open'',
               Dup2 (- 1) 0, Close (- 1), Exec (Some ''cat'') [''cat'']]]"
    by (simp add: children_of_def sys_waitpid_def sys_fork_def add_history_def shell0_def
        MAX_HISTORY_def child_eval os_refuses_open_def)
  show ?thesis using a b c by simp
qed






text \<open>
  Claim C9, as amended. The tokens of \<open>parse_args\<close> are separated by the space
  character, the only delimiter it gives to \<^verbatim>\<open>strtok\<close>; a tab or any other white-space
  character is part of a token. For every line, \<open>parse_args\<close> on an array of \<open>MAX_ARGS\<close>
  slots ends without an access outside the array (a store at index \<open>MAX_ARGS\<close> or beyond
  would be the result \<open>Inl OutOfBounds\<close>). When the line has at most \<open>MAX_ARGS - 1\<close>
  such tokens, the array then holds these tokens in order, followed by a null pointer,
  followed by what the array held before. When the line has \<open>MAX_ARGS\<close> tokens or more,
  the array holds the first \<open>MAX_ARGS\<close> tokens and nothing else: the other tokens are
  dropped and no slot holds a null pointer.
\<close>

theorem parse_args_bounded:
  assumes "length args = MAX_ARGS"
  shows "\<exists>saved'. parse_args (Some line) args saved =
           Inr (if length (tokens CHR '' '' line) < MAX_ARGS
                then map Ptr (tokens CHR '' '' line) @
                     Null # drop (Suc (length (tokens CHR '' '' line))) args
                else map Ptr (take MAX_ARGS (tokens CHR '' '' line)), saved')"
  using parse_args_tokens[OF assms, of line saved] by (auto simp: filled_def)

theorem parse_args_bounded_witness:
  "length (fresh_array MAX_ARGS) = MAX_ARGS \<and>
   (\<exists>saved'. parse_args (Some ''ls -l'') (fresh_array MAX_ARGS) [] =
      Inr (Ptr ''ls'' # Ptr ''-l'' # Null # replicate 125 Uninit, saved'))"
  using parse_args_bounded[of "fresh_array MAX_ARGS" "''ls -l''" "[]"]
  by (simp add: tokens_def fresh_array_def MAX_ARGS_def)

text \<open>
  The claim as it was stated, with tokens separated by white space, fails on the line made
  of \<^verbatim>\<open>ls\<close>, a tab and \<^verbatim>\<open>-l\<close>: its white-space-separated tokens are \<^verbatim>\<open>ls\<close> and \<^verbatim>\<open>-l\<close>,
  and \<open>parse_args\<close> stores the whole line as one token.
\<close>

theorem tab_does_not_separate_tokens:
  "whitespace_tokens [CHR ''l'', CHR ''s'', CHR 0x09, CHR ''-'', CHR ''l''] = [''ls'', ''-l''] \<and>
   parse_args (Some [CHR ''l'', CHR ''s'', CHR 0x09, CHR ''-'', CHR ''l''])
     (fresh_array MAX_ARGS) [] =
     Inr (Ptr [CHR ''l'', CHR ''s'', CHR 0x09, CHR ''-'', CHR ''l''] # Null #
            replicate 126 Uninit, [])"
proof -
  have "parse_args (Some [CHR ''l'', CHR ''s'', CHR 0x09, CHR ''-'', CHR ''l''])
     (fresh_array MAX_ARGS) [] =
     Inr (map Ptr [[CHR ''l'', CHR ''s'', CHR 0x09, CHR ''-'', CHR ''l'']] @ Null #
            replicate (MAX_ARGS - Suc (length [[CHR ''l'', CHR ''s'', CHR 0x09, CHR ''-'', CHR ''l'']]))
              Uninit, [])"
    by (rule parse_args_fresh) (simp_all add: strtok_source_def tab_line_tokens MAX_ARGS_def)
  then show ?thesis
    by (simp add: whitespace_tokens_def isspace_def MAX_ARGS_def)
qed

text \<open>
  Claim C10. When the line is empty once it has been cut at its newline, the turn of the
  loop of \<open>shell_loop\<close> leaves the shell as it was: nothing is added to the history, the
  line is not expanded, and no process is forked.
\<close>

theorem empty_line_is_skipped:
  "trim_newline buf = [] \<Longrightarrow> shell_iteration os buf sh = Inr sh"
  by (simp add: shell_iteration_def)

theorem empty_line_is_skipped_witness:
  "trim_newline [CHR 0x0A] = [] \<and> shell_iteration os_grants [CHR 0x0A] shell0 = Inr shell0"
  using empty_line_is_skipped[of "[CHR 0x0A]" os_grants shell0] by (simp add: trim_newline_def)

end
